theory Spec2Isabelle
  imports Complex_Main
begin

section \<open>The virtual list of vlist.js\<close>

text \<open>
  A shallow embedding of \<^verbatim>\<open>src/vlist.js\<close>: the constructor \<^verbatim>\<open>VirtualList\<close>, the methods
  \<^verbatim>\<open>createRow\<close>, \<^verbatim>\<open>_renderChunk\<close> and \<^verbatim>\<open>updateTotalRows\<close>, the two element builders,
  the debounced body of \<^verbatim>\<open>onScroll\<close> and the body of the \<^verbatim>\<open>rmNodeInterval\<close> timer.

  Conventions of the embedding.
  \<^item> JavaScript numbers are integers (pixel sizes, row indices, milliseconds), of
    magnitude below \<open>2^53\<close>, where double arithmetic on them is exact. \<^verbatim>\<open>NaN\<close> and the
    infinities are not values of the model: the constructor reports them as
    \<open>NotANumber\<close> where the source would go on computing with them.
  \<^item> DOM elements live in a store \<open>heap\<close> from node identities to elements, since the
    source reaches the same element through several references (\<^verbatim>\<open>this.scroller\<close> is
    also \<^verbatim>\<open>container.childNodes[0]\<close>) and removes children by identity.
  \<^item> A style or attribute assignment stores the assigned value; the validation a
    browser applies to a style value is not modelled.
  \<^item> The data source \<^verbatim>\<open>getNodes\<close> is the environment. A call is logged in \<open>issued\<close>
    and its callback is kept in \<open>inflight\<close> until the environment invokes it, once.
    A data source that invokes the callback before \<^verbatim>\<open>getNodes\<close> returns behaves as
    one that invokes it right after: nothing runs in between.
  \<^item> \<^verbatim>\<open>generatorFn\<close> and the items are parameters; \<^verbatim>\<open>generatorFn\<close> is a function from
    an item to the element it builds.
\<close>

subsection \<open>Values and elements\<close>

type_synonym node = nat

text \<open>
  Style values are strings. \<open>Px n\<close> is the string the source builds as \<^verbatim>\<open>n + 'px'\<close> from
  the number \<open>n\<close>; \<open>Lit s\<close> is any other string, written out.
\<close>

datatype cssval = Px int | Lit string

text \<open>JavaScript truthiness of a string: every string but the empty one.\<close>

fun truthy :: "cssval \<Rightarrow> bool" where
  "truthy (Px n) = True"
| "truthy (Lit s) = (s \<noteq> [])"

record element =
  classList :: "string list"
  style :: "string \<rightharpoonup> cssval"
  attributes :: "string \<rightharpoonup> string"
  childNodes :: "node list"

text \<open>\<^verbatim>\<open>document.createElement('div')\<close>: an element with nothing set.\<close>

definition createElement :: element where
  "createElement =
     \<lparr>classList = [], style = Map.empty, attributes = Map.empty, childNodes = []\<rparr>"

definition set_style :: "string \<Rightarrow> cssval \<Rightarrow> element \<Rightarrow> element" where
  "set_style p v e = e\<lparr>style := (style e)(p \<mapsto> v)\<rparr>"

definition setAttribute :: "string \<Rightarrow> string \<Rightarrow> element \<Rightarrow> element" where
  "setAttribute a v e = e\<lparr>attributes := (attributes e)(a \<mapsto> v)\<rparr>"

text \<open>\<^verbatim>\<open>classList.add\<close> adds a token that is not there yet.\<close>

definition classList_add :: "string \<Rightarrow> element \<Rightarrow> element" where
  "classList_add c e =
     (if c \<in> set (classList e) then e else e\<lparr>classList := classList e @ [c]\<rparr>)"

text \<open>\<^verbatim>\<open>VirtualList.createContainer(w, h)\<close>, lines 152 to 161.\<close>

definition createContainer :: "cssval \<Rightarrow> cssval \<Rightarrow> element" where
  "createContainer w h =
     set_style ''border'' (Lit ''1px solid black'')
       (set_style ''padding'' (Lit ''0'')
         (set_style ''position'' (Lit ''relative'')
           (set_style ''overflow'' (Lit ''auto'')
             (set_style ''height'' h
               (set_style ''width'' w createElement)))))"

text \<open>\<^verbatim>\<open>VirtualList.createScroller(h)\<close>, lines 163 to 172.\<close>

definition createScroller :: "int \<Rightarrow> element" where
  "createScroller h =
     set_style ''height'' (Px h)
       (set_style ''width'' (Lit ''1px'')
         (set_style ''left'' (Lit ''0'')
           (set_style ''top'' (Lit ''0'')
             (set_style ''position'' (Lit ''absolute'')
               (set_style ''opacity'' (Lit ''0'') createElement)))))"

subsection \<open>The list object, the closure variables of its constructor, the environment\<close>

text \<open>
  One record holds the fields of \<^verbatim>\<open>this\<close> (\<open>itemHeight\<close> to \<open>cachedItemsLen\<close>; the
  fields \<^verbatim>\<open>request\<close> and \<^verbatim>\<open>rmNodeInterval\<close> are written once and never read), the
  variables the constructor's closures share (\<open>screenItemsLen\<close> to \<open>lastScrolled\<close>;
  \<open>lastRepaintY = None\<close> is \<^verbatim>\<open>undefined\<close>), and the environment: the DOM store with its
  allocator, and the data source.

  \<open>nextChunk = None\<close> is \<^verbatim>\<open>false\<close>, \<open>Some (node, from)\<close> the object \<^verbatim>\<open>{node, from}\<close>.
  An entry \<open>(node, from, count)\<close> of \<open>inflight\<close> is a callback handed to \<^verbatim>\<open>getNodes\<close>
  and not yet invoked, with the \<^verbatim>\<open>node\<close> and \<^verbatim>\<open>from\<close> it closes over and the count
  that was asked for. \<open>completed\<close> is the request the data source answered last.
\<close>

record 'a vlist =
  itemHeight :: int
  lastFrom :: int
  loading :: bool
  generatorFn :: "'a \<Rightarrow> element"
  totalRows :: int
  nextChunk :: "(node \<times> int) option"
  scroller :: node
  container :: node
  cachedItemsLen :: int
  screenItemsLen :: int
  lastRepaintY :: "int option"
  maxBuffer :: int
  lastScrolled :: int
  heap :: "node \<Rightarrow> element"
  next_node :: node
  issued :: "(int \<times> int) list"
  inflight :: "(node \<times> int \<times> int) list"
  completed :: "(int \<times> int) option"

definition on_node :: "node \<Rightarrow> (element \<Rightarrow> element) \<Rightarrow> 'a vlist \<Rightarrow> 'a vlist" where
  "on_node n f s = s\<lparr>heap := (heap s)(n := f (heap s n))\<rparr>"

subsection \<open>updateTotalRows, lines 147 to 150\<close>

definition updateTotalRows :: "int \<Rightarrow> 'a vlist \<Rightarrow> 'a vlist" where
  "updateTotalRows n s =
     (let s1 = s\<lparr>totalRows := n\<rparr>
      in on_node (scroller s1) (set_style ''height'' (Px (itemHeight s1 * totalRows s1))) s1)"

subsection \<open>createRow, lines 88 to 94\<close>

text \<open>
  \<^verbatim>\<open>generatorFn\<close> builds the element of an item; it is taken to build a new element at
  every call, which the model allocates at \<open>next_node\<close>. The result is the new node.
\<close>

definition createRow :: "'a \<Rightarrow> int \<Rightarrow> 'a vlist \<Rightarrow> node \<times> 'a vlist" where
  "createRow item i s =
     (let n = next_node s;
          e = set_style ''top'' (Px (i * itemHeight s))
                (set_style ''position'' (Lit ''absolute'')
                  (classList_add ''vrow'' (generatorFn s item)))
      in (n, s\<lparr>heap := (heap s)(n := e), next_node := Suc n\<rparr>))"

subsection \<open>The chunk renderer, lines 106 to 145\<close>

text \<open>
  \<^verbatim>\<open>_renderChunk(node, from)\<close> up to the return of \<^verbatim>\<open>getNodes\<close>: the call is logged and
  its callback waits in \<open>inflight\<close>.
\<close>

definition renderChunk :: "node \<Rightarrow> int \<Rightarrow> 'a vlist \<Rightarrow> 'a vlist" where
  "renderChunk nd from s =
     (if loading s then s\<lparr>nextChunk := Some (nd, from)\<rparr>
      else s\<lparr>nextChunk := None, loading := True,
             issued := issued s @ [(from, cachedItemsLen s)],
             inflight := inflight s @ [(nd, from, cachedItemsLen s)]\<rparr>)"

text \<open>The loop of lines 128 to 130: the rows of the fragment, in order.\<close>

fun fragment_rows :: "'a list \<Rightarrow> int \<Rightarrow> 'a vlist \<Rightarrow> node list \<times> 'a vlist" where
  "fragment_rows [] k s = ([], s)"
| "fragment_rows (x # xs) k s =
     (let (n, s1) = createRow x k s;
          (ns, s2) = fragment_rows xs (k + 1) s1
      in (n # ns, s2))"

text \<open>The body of the loop of lines 133 to 136, and the loop from child 1 on.\<close>

definition mark_obsolete :: "node \<Rightarrow> 'a vlist \<Rightarrow> 'a vlist" where
  "mark_obsolete n s =
     on_node n (\<lambda>e. setAttribute ''data-rm'' ''1'' (set_style ''display'' (Lit ''none'') e)) s"

definition mark_children :: "node \<Rightarrow> 'a vlist \<Rightarrow> 'a vlist" where
  "mark_children nd s = fold mark_obsolete (drop 1 (childNodes (heap s nd))) s"

definition appendChild :: "node \<Rightarrow> node list \<Rightarrow> 'a vlist \<Rightarrow> 'a vlist" where
  "appendChild nd frag s = on_node nd (\<lambda>e. e\<lparr>childNodes := childNodes e @ frag\<rparr>) s"

text \<open>
  The callback of lines 122 to 143, for the \<^verbatim>\<open>node\<close> and \<^verbatim>\<open>from\<close> it closes over, invoked
  with \<^verbatim>\<open>items\<close> and \<^verbatim>\<open>newTotalRows\<close>.
\<close>

definition callback :: "node \<Rightarrow> int \<Rightarrow> 'a list \<Rightarrow> int \<Rightarrow> 'a vlist \<Rightarrow> 'a vlist" where
  "callback nd from items newTotalRows s =
     (let s1 = updateTotalRows newTotalRows s;
          (fragment, s2) = fragment_rows items from s1;
          s3 = mark_children nd s2;
          s4 = appendChild nd fragment s3;
          s5 = s4\<lparr>loading := False\<rparr>
      in case nextChunk s5 of
           None \<Rightarrow> s5
         | Some (nd', from') \<Rightarrow> renderChunk nd' from' s5)"

text \<open>
  The data source answers the \<open>k\<close>-th waiting request: its callback leaves \<open>inflight\<close>
  and runs. With no such request nothing happens.
\<close>

definition fetch_done :: "nat \<Rightarrow> 'a list \<Rightarrow> int \<Rightarrow> 'a vlist \<Rightarrow> 'a vlist" where
  "fetch_done k items newTotalRows s =
     (if k < length (inflight s)
      then (case inflight s ! k of
              (nd, from, count) \<Rightarrow>
                callback nd from items newTotalRows
                  (s\<lparr>inflight := take k (inflight s) @ drop (Suc k) (inflight s),
                     completed := Some (from, count)\<rparr>))
      else s)"

subsection \<open>The constructor, lines 32 to 86\<close>

record config =
  cfg_w :: "int option"
  cfg_h :: "int option"
  cfg_itemHeight :: int

datatype ctor_error = TypeError | NotANumber

text \<open>
  Lines 33 and 34, \<^verbatim>\<open>(config && config.w + 'px') || '100%'\<close>, for a field \<open>fld\<close>.
  An absent configuration is \<open>None\<close>; an absent field is \<^verbatim>\<open>undefined\<close>, and
  \<^verbatim>\<open>undefined + 'px'\<close> is the string \<^verbatim>\<open>'undefinedpx'\<close>.
\<close>

definition plus_px :: "int option \<Rightarrow> cssval" where
  "plus_px x = (case x of None \<Rightarrow> Lit ''undefinedpx'' | Some n \<Rightarrow> Px n)"

definition dimension :: "config option \<Rightarrow> (config \<Rightarrow> int option) \<Rightarrow> cssval" where
  "dimension cfg fld =
     (case cfg of
        None \<Rightarrow> Lit ''100%''
      | Some c \<Rightarrow> (if truthy (plus_px (fld c)) then plus_px (fld c) else Lit ''100%''))"

text \<open>\<^verbatim>\<open>Math.ceil(a / b)\<close> on integers, \<open>b\<close> not zero.\<close>

definition Math_ceil_div :: "int \<Rightarrow> int \<Rightarrow> int" where
  "Math_ceil_div a b = - ((- a) div b)"

text \<open>
  The constructor up to its return. Reading \<^verbatim>\<open>config.itemHeight\<close> of an absent
  configuration throws (line 35). The scroller is node 0 and the container node 1.
\<close>

definition VirtualList :: "config option \<Rightarrow> ('a \<Rightarrow> element) \<Rightarrow> ctor_error + 'a vlist" where
  "VirtualList config gen =
     (let width = dimension config cfg_w;
          height = dimension config cfg_h
      in case config of
           None \<Rightarrow> Inl TypeError
         | Some c \<Rightarrow>
            (case cfg_h c of
               None \<Rightarrow> Inl NotANumber
             | Some h \<Rightarrow>
                if cfg_itemHeight c = 0 then Inl NotANumber
                else
                  (let len = Math_ceil_div h (cfg_itemHeight c);
                       s = \<lparr>itemHeight = cfg_itemHeight c, lastFrom = - 1, loading = False,
                            generatorFn = gen, totalRows = 0, nextChunk = None,
                            scroller = 0, container = 1,
                            cachedItemsLen = len * 3, screenItemsLen = len,
                            lastRepaintY = None, maxBuffer = len * cfg_itemHeight c,
                            lastScrolled = 0,
                            heap = (\<lambda>_. createElement)
                              (0 := createScroller 0,
                               1 := (createContainer width height)\<lparr>childNodes := [0]\<rparr>),
                            next_node = 2, issued = [], inflight = [], completed = None\<rparr>
                   in Inr (renderChunk (container s) 0 s))))"

subsection \<open>The debounced scroll check, lines 72 to 82\<close>

text \<open>
  \<^verbatim>\<open>parseInt(a / b)\<close> reads the integer part of the quotient's decimal string: the
  quotient rounded towards zero, for a quotient that JavaScript prints without an
  exponent (zero, or of magnitude from \<open>10^-6\<close> to below \<open>10^21\<close>).
\<close>

definition parseInt_div :: "int \<Rightarrow> int \<Rightarrow> int" where
  "parseInt_div a b = sgn a * sgn b * (\<bar>a\<bar> div \<bar>b\<bar>)"

text \<open>\<^verbatim>\<open>!lastRepaintY\<close>: true of \<^verbatim>\<open>undefined\<close> and of the number 0.\<close>

definition falsy :: "int option \<Rightarrow> bool" where
  "falsy y = (case y of None \<Rightarrow> True | Some n \<Rightarrow> n = 0)"

definition repaints :: "int \<Rightarrow> 'a vlist \<Rightarrow> bool" where
  "repaints scrollTop s =
     (falsy (lastRepaintY s) \<or>
      (case lastRepaintY s of None \<Rightarrow> False
       | Some y \<Rightarrow> \<bar>scrollTop - y\<bar> > maxBuffer s))"

definition onScroll :: "int \<Rightarrow> int \<Rightarrow> 'a vlist \<Rightarrow> 'a vlist" where
  "onScroll scrollTop now s =
     (let s1 = (if repaints scrollTop s
                then (let first = parseInt_div scrollTop (itemHeight s) - screenItemsLen s
                      in (renderChunk (container s) (if first < 0 then 0 else first) s)
                           \<lparr>lastRepaintY := Some scrollTop\<rparr>)
                else s)
      in s1\<lparr>lastScrolled := now\<rparr>)"

subsection \<open>The reaper tick, lines 61 to 68\<close>

text \<open>
  \<open>doc\<close> is the list of the elements that are in the document when the tick fires, in
  tree order; \<^verbatim>\<open>querySelectorAll('[data-rm="1"]')\<close> selects from it. \<^verbatim>\<open>removeChild\<close>
  throws \<open>NotFoundError\<close> for a node that is not a child, which ends the loop with the
  removals made so far in place.
\<close>

datatype dom_exception = NotFoundError

definition flagged :: "'a vlist \<Rightarrow> node \<Rightarrow> bool" where
  "flagged s n = (attributes (heap s n) ''data-rm'' = Some ''1'')"

definition querySelectorAll_rm :: "node list \<Rightarrow> 'a vlist \<Rightarrow> node list" where
  "querySelectorAll_rm doc s = filter (flagged s) doc"

fun removeChildren :: "node list \<Rightarrow> 'a vlist \<Rightarrow> dom_exception option \<times> 'a vlist" where
  "removeChildren [] s = (None, s)"
| "removeChildren (n # ns) s =
     (if n \<in> set (childNodes (heap s (container s)))
      then removeChildren ns
             (on_node (container s) (\<lambda>e. e\<lparr>childNodes := remove1 n (childNodes e)\<rparr>) s)
      else (Some NotFoundError, s))"

definition rmNodeInterval :: "int \<Rightarrow> node list \<Rightarrow> 'a vlist \<Rightarrow> dom_exception option \<times> 'a vlist" where
  "rmNodeInterval now doc s =
     (if now - lastScrolled s > 100
      then removeChildren (querySelectorAll_rm doc s) s
      else (None, s))"

subsection \<open>Runs\<close>

text \<open>
  What can happen to a list after its construction: a window request, a debounced
  scroll check, an answer of the data source, a reaper tick, a call of the public
  \<^verbatim>\<open>updateTotalRows\<close>. An exception of the reaper tick is not caught by anyone; the
  list goes on from the state the tick left.
\<close>

datatype 'a event =
    Request int
  | ScrollCheck int int
  | FetchDone nat "'a list" int
  | ReaperTick int "node list"
  | UpdateTotalRows int

fun step :: "'a vlist \<Rightarrow> 'a event \<Rightarrow> 'a vlist" where
  "step s (Request from) = renderChunk (container s) from s"
| "step s (ScrollCheck scrollTop now) = onScroll scrollTop now s"
| "step s (FetchDone k items n) = fetch_done k items n s"
| "step s (ReaperTick now doc) = snd (rmNodeInterval now doc s)"
| "step s (UpdateTotalRows n) = updateTotalRows n s"

definition run :: "'a event list \<Rightarrow> 'a vlist \<Rightarrow> 'a vlist" where
  "run evs s = foldl step s evs"

subsection \<open>The invariant of the fetch control\<close>

text \<open>
  What holds of \<open>loading\<close>, \<open>nextChunk\<close> and the data source between any two events:
  at most one request waits for its answer, \<open>loading\<close> says whether one does, a window
  is remembered only then, and every request was made for this list's container with
  the count \<open>cachedItemsLen\<close>.
\<close>

definition ctl_inv :: "'a vlist \<Rightarrow> bool" where
  "ctl_inv s \<longleftrightarrow>
     length (inflight s) \<le> 1 \<and> (loading s \<longleftrightarrow> inflight s \<noteq> []) \<and>
     (nextChunk s \<noteq> None \<longrightarrow> loading s) \<and>
     (\<forall>e \<in> set (inflight s). fst e = container s \<and> snd (snd e) = cachedItemsLen s) \<and>
     (\<forall>nd f. nextChunk s = Some (nd, f) \<longrightarrow> nd = container s) \<and>
     (\<forall>e \<in> set (issued s). snd e = cachedItemsLen s)"

subsection \<open>Rows, live rows and their indices\<close>

text \<open>
  The row elements of a list are the children of its container other than the
  scroller; a row is live when it does not carry \<^verbatim>\<open>data-rm="1"\<close>. createRow places the
  row of index \<open>i\<close> at \<open>top = i * itemHeight\<close>, so the index of a row element is read
  back from its \<open>top\<close>.
\<close>

definition rows :: "'a vlist \<Rightarrow> node list" where
  "rows s = filter (\<lambda>n. n \<noteq> scroller s) (childNodes (heap s (container s)))"

definition live_rows :: "'a vlist \<Rightarrow> node list" where
  "live_rows s = filter (\<lambda>n. \<not> flagged s n) (rows s)"

definition row_index :: "'a vlist \<Rightarrow> node \<Rightarrow> int option" where
  "row_index s n =
     (case style (heap s n) ''top'' of
        Some (Px t) \<Rightarrow>
          (if itemHeight s \<noteq> 0 \<and> itemHeight s dvd t then Some (t div itemHeight s) else None)
      | _ \<Rightarrow> None)"

definition live_indices :: "'a vlist \<Rightarrow> int option list" where
  "live_indices s = map (row_index s) (live_rows s)"

text \<open>
  The contract of the data source: an answer holds at most as many items as were
  asked for.
\<close>

fun within_count :: "int \<Rightarrow> 'a event \<Rightarrow> bool" where
  "within_count n (FetchDone k items t) = (int (length items) \<le> n)"
| "within_count n e = True"

text \<open>
  The shape of the DOM between two events: the scroller is the first child of the
  container, is not flagged and is not one of the rows, and every node in use was
  allocated. \<open>live_ok\<close>: the live rows have distinct indices within the window that was
  answered last. \<open>mark\<close> is what the loop of lines 133 to 136 does to one element.
\<close>

definition dom_struct :: "'a vlist \<Rightarrow> bool" where
  "dom_struct s \<longleftrightarrow>
     itemHeight s \<noteq> 0 \<and> scroller s \<noteq> container s \<and>
     scroller s < next_node s \<and> container s < next_node s \<and>
     \<not> flagged s (scroller s) \<and>
     (\<exists>rs. childNodes (heap s (container s)) = scroller s # rs \<and> scroller s \<notin> set rs \<and>
           (\<forall>n \<in> set rs. n < next_node s))"

definition live_ok :: "'a vlist \<Rightarrow> bool" where
  "live_ok s \<longleftrightarrow>
     (\<exists>js. live_indices s = map Some js \<and> distinct js \<and>
           (case completed s of None \<Rightarrow> js = [] | Some (f, c) \<Rightarrow> set js \<subseteq> {f ..< f + c}))"

definition mark :: "element \<Rightarrow> element" where
  "mark e = setAttribute ''data-rm'' ''1'' (set_style ''display'' (Lit ''none'') e)"

definition list_inv :: "'a vlist \<Rightarrow> bool" where
  "list_inv s \<longleftrightarrow> ctl_inv s \<and> dom_struct s \<and> live_ok s"

subsection \<open>A list to run: rows of 20 pixels in a viewport of 300 by 200\<close>

definition example_config :: config where
  "example_config = \<lparr>cfg_w = Some 300, cfg_h = Some 200, cfg_itemHeight = 20\<rparr>"

definition example_gen :: "nat \<Rightarrow> element" where
  "example_gen item = createElement"

definition example_initial :: "nat vlist" where
  "example_initial =
     \<lparr>itemHeight = 20, lastFrom = - 1, loading = True,
      generatorFn = example_gen, totalRows = 0, nextChunk = None,
      scroller = 0, container = 1, cachedItemsLen = 30, screenItemsLen = 10,
      lastRepaintY = None, maxBuffer = 200, lastScrolled = 0,
      heap = (\<lambda>_. createElement)
        (0 := createScroller 0,
         1 := (createContainer (Px 300) (Px 200))\<lparr>childNodes := [0]\<rparr>),
      next_node = 2, issued = [(0, 30)], inflight = [(1, 0, 30)], completed = None\<rparr>"

text \<open>
  The example list after two answered requests: rows 2 and 3 of the first answer are
  obsolete, row 4 of the second is live. \<open>example_page\<close> is the same list on a page
  where some other script has created one more element that carries
  \<^verbatim>\<open>data-rm="1"\<close>, such as an obsolete row of a second list.
\<close>

definition example_two_fetches :: "nat vlist" where
  "example_two_fetches =
     run [FetchDone 0 [10, 20] 1000, Request 240, FetchDone 0 [30] 1000] example_initial"

definition example_page :: "nat vlist" where
  "example_page =
     example_two_fetches
       \<lparr>heap := (heap example_two_fetches)
          (next_node example_two_fetches := setAttribute ''data-rm'' ''1'' createElement),
        next_node := Suc (next_node example_two_fetches)\<rparr>"

section \<open>Properties\<close>

lemma run_Nil: "run [] s = s"
  by (simp add: run_def)


lemma run_snoc: "run (evs @ [e]) s = step (run evs s) e"
  by (simp add: run_def)

lemma run_Cons: "run (e # evs) s = run evs (step s e)"
  by (simp add: run_def)

subsection \<open>What each operation leaves alone\<close>

text \<open>
  The DOM operations change the store and the allocator and nothing else of the
  state; the frame lemmas say so as equations between records.
\<close>

lemma createRow_frame:
  "\<exists>H. snd (createRow x k s) = s\<lparr>heap := H, next_node := Suc (next_node s)\<rparr>"
  unfolding createRow_def Let_def snd_conv by blast

lemma fragment_rows_frame:
  "\<exists>H. snd (fragment_rows xs k s) = s\<lparr>heap := H, next_node := next_node s + length xs\<rparr>"
proof (induction xs arbitrary: k s)
  case Nil
  show ?case by (rule exI [of _ "heap s"]) simp
next
  case (Cons x xs)
  obtain n s1 where c: "createRow x k s = (n, s1)" by (cases "createRow x k s")
  obtain ns s2 where f: "fragment_rows xs (k + 1) s1 = (ns, s2)" by (cases "fragment_rows xs (k + 1) s1")
  obtain H1 where s1: "s1 = s\<lparr>heap := H1, next_node := Suc (next_node s)\<rparr>"
    using createRow_frame [of x k s] c by auto
  obtain H2 where s2: "s2 = s1\<lparr>heap := H2, next_node := next_node s1 + length xs\<rparr>"
    using Cons.IH [of "k + 1" s1] f by auto
  have "s2 = s\<lparr>heap := H2, next_node := next_node s + length (x # xs)\<rparr>"
    by (simp add: s2 s1)
  then show ?case using c f by auto
qed

lemma mark_obsolete_frame: "\<exists>H. mark_obsolete n s = s\<lparr>heap := H\<rparr>"
  unfolding mark_obsolete_def on_node_def by blast

lemma fold_mark_frame: "\<exists>H. fold mark_obsolete ns s = s\<lparr>heap := H\<rparr>"
proof (induction ns arbitrary: s)
  case Nil
  show ?case by (rule exI [of _ "heap s"]) simp
next
  case (Cons n ns)
  obtain H1 where a: "mark_obsolete n s = s\<lparr>heap := H1\<rparr>"
    using mark_obsolete_frame by blast
  obtain H2 where b: "fold mark_obsolete ns (s\<lparr>heap := H1\<rparr>) = s\<lparr>heap := H1\<rparr>\<lparr>heap := H2\<rparr>"
    using Cons.IH by blast
  show ?case by (simp add: a b) blast
qed

lemma updateTotalRows_frame: "\<exists>H. updateTotalRows t s = s\<lparr>totalRows := t, heap := H\<rparr>"
  unfolding updateTotalRows_def on_node_def Let_def by simp blast

lemma appendChild_frame: "\<exists>H. appendChild nd frag s = s\<lparr>heap := H\<rparr>"
  unfolding appendChild_def on_node_def by blast

lemma mark_children_frame: "\<exists>H. mark_children nd s = s\<lparr>heap := H\<rparr>"
  unfolding mark_children_def by (rule fold_mark_frame)

lemma callback_frame:
  "\<exists>H m. callback nd from items t s =
     (case nextChunk s of
        None \<Rightarrow> s\<lparr>totalRows := t, heap := H, next_node := m, loading := False\<rparr>
      | Some (nd', from') \<Rightarrow>
          renderChunk nd' from' (s\<lparr>totalRows := t, heap := H, next_node := m, loading := False\<rparr>))"
proof -
  obtain frag s2 where f: "fragment_rows items from (updateTotalRows t s) = (frag, s2)"
    by (cases "fragment_rows items from (updateTotalRows t s)")
  define s4 where "s4 = appendChild nd frag (mark_children nd s2)"
  have cb: "callback nd from items t s =
     (case nextChunk (s4\<lparr>loading := False\<rparr>) of None \<Rightarrow> s4\<lparr>loading := False\<rparr>
      | Some (nd', from') \<Rightarrow> renderChunk nd' from' (s4\<lparr>loading := False\<rparr>))"
    unfolding s4_def callback_def Let_def f by simp
  obtain H1 where s1: "updateTotalRows t s = s\<lparr>totalRows := t, heap := H1\<rparr>"
    using updateTotalRows_frame by blast
  obtain H2 where s2: "s2 = s\<lparr>totalRows := t, heap := H1\<rparr>
      \<lparr>heap := H2, next_node := next_node (s\<lparr>totalRows := t, heap := H1\<rparr>) + length items\<rparr>"
    using fragment_rows_frame [of items "from" "s\<lparr>totalRows := t, heap := H1\<rparr>"] f
    unfolding s1 by auto
  obtain H3 where s3: "mark_children nd s2 = s2\<lparr>heap := H3\<rparr>"
    using mark_children_frame by blast
  obtain H4 where s4: "s4 = s2\<lparr>heap := H3\<rparr>\<lparr>heap := H4\<rparr>"
    unfolding s4_def s3 using appendChild_frame by blast
  have s5: "s4\<lparr>loading := False\<rparr> =
      s\<lparr>totalRows := t, heap := H4, next_node := next_node s + length items, loading := False\<rparr>"
    by (simp add: s4 s2)
  show ?thesis
    unfolding cb s5 by (simp, blast)
qed


lemma removeChildren_frame: "\<exists>H. snd (removeChildren ns s) = s\<lparr>heap := H\<rparr>"
proof (induction ns arbitrary: s)
  case Nil
  show ?case by (rule exI [of _ "heap s"]) simp
next
  case (Cons n ns)
  show ?case
  proof (cases "n \<in> set (childNodes (heap s (container s)))")
    case False
    then show ?thesis by (simp add: exI [of _ "heap s"])
  next
    case True
    define H1 where "H1 = (heap s)(container s :=
      (heap s (container s))\<lparr>childNodes := remove1 n (childNodes (heap s (container s)))\<rparr>)"
    obtain H2 where "snd (removeChildren ns (s\<lparr>heap := H1\<rparr>)) = s\<lparr>heap := H1\<rparr>\<lparr>heap := H2\<rparr>"
      using Cons.IH by blast
    then show ?thesis using True by (simp add: on_node_def H1_def) blast
  qed
qed

lemma rmNodeInterval_frame: "\<exists>H. snd (rmNodeInterval now doc s) = s\<lparr>heap := H\<rparr>"
proof (cases "now - lastScrolled s > 100")
  case True
  then show ?thesis using removeChildren_frame by (simp add: rmNodeInterval_def)
next
  case False
  then show ?thesis by (simp add: rmNodeInterval_def exI [of _ "heap s"])
qed

lemma ctl_inv_renderChunk: "ctl_inv s \<Longrightarrow> ctl_inv (renderChunk (container s) from s)"
  by (auto simp: ctl_inv_def renderChunk_def)

lemma ctl_inv_onScroll: "ctl_inv s \<Longrightarrow> ctl_inv (onScroll y now s)"
  by (auto simp: ctl_inv_def renderChunk_def onScroll_def Let_def)

lemma ctl_inv_heap: "ctl_inv (s\<lparr>heap := H\<rparr>) = ctl_inv s"
  by (simp add: ctl_inv_def)

lemma ctl_inv_updateTotalRows: "ctl_inv s \<Longrightarrow> ctl_inv (updateTotalRows n s)"
proof -
  obtain H where "updateTotalRows n s = s\<lparr>totalRows := n, heap := H\<rparr>"
    using updateTotalRows_frame by blast
  then show "ctl_inv s \<Longrightarrow> ctl_inv (updateTotalRows n s)"
    by (auto simp: ctl_inv_def)
qed

lemma ctl_inv_rmNodeInterval: "ctl_inv s \<Longrightarrow> ctl_inv (snd (rmNodeInterval now doc s))"
proof -
  obtain H where "snd (rmNodeInterval now doc s) = s\<lparr>heap := H\<rparr>"
    using rmNodeInterval_frame by blast
  then show "ctl_inv s \<Longrightarrow> ctl_inv (snd (rmNodeInterval now doc s))"
    by (simp add: ctl_inv_heap)
qed

lemma ctl_inv_fetch_done:
  assumes "ctl_inv s"
  shows "ctl_inv (fetch_done k items t s)"
proof (cases "k < length (inflight s)")
  case False
  then show ?thesis using assms by (simp add: fetch_done_def)
next
  case True
  with assms have k: "k = 0" and len: "length (inflight s) = 1"
    by (auto simp: ctl_inv_def)
  then obtain nd f c where inf: "inflight s = [(nd, f, c)]"
    by (cases "inflight s") auto
  define s0 where "s0 = s\<lparr>inflight := [], completed := Some (f, c)\<rparr>"
  have fd: "fetch_done k items t s = callback nd f items t s0"
    by (simp add: fetch_done_def k inf s0_def)
  obtain H m where cb: "callback nd f items t s0 =
     (case nextChunk s0 of
        None \<Rightarrow> s0\<lparr>totalRows := t, heap := H, next_node := m, loading := False\<rparr>
      | Some (nd', from') \<Rightarrow>
          renderChunk nd' from' (s0\<lparr>totalRows := t, heap := H, next_node := m, loading := False\<rparr>))"
    using callback_frame by blast
  show ?thesis
    using assms unfolding fd cb
    by (auto simp: ctl_inv_def s0_def renderChunk_def inf split: option.splits)
qed

lemma ctl_inv_step: "ctl_inv s \<Longrightarrow> ctl_inv (step s e)"
  by (cases e)
    (simp_all add: ctl_inv_renderChunk ctl_inv_onScroll ctl_inv_fetch_done
      ctl_inv_rmNodeInterval ctl_inv_updateTotalRows)

lemma ctl_inv_run: "ctl_inv s \<Longrightarrow> ctl_inv (run evs s)"
  by (induction evs arbitrary: s) (simp_all add: run_Cons run_Nil ctl_inv_step)

lemma VirtualList_Inr:
  assumes "VirtualList (Some c) gen = Inr s0"
  obtains h where "cfg_h c = Some h" and "cfg_itemHeight c \<noteq> 0"
    and "s0 = renderChunk 1 0
       \<lparr>itemHeight = cfg_itemHeight c, lastFrom = - 1, loading = False,
        generatorFn = gen, totalRows = 0, nextChunk = None,
        scroller = 0, container = 1,
        cachedItemsLen = Math_ceil_div h (cfg_itemHeight c) * 3,
        screenItemsLen = Math_ceil_div h (cfg_itemHeight c),
        lastRepaintY = None,
        maxBuffer = Math_ceil_div h (cfg_itemHeight c) * cfg_itemHeight c,
        lastScrolled = 0,
        heap = (\<lambda>_. createElement)
          (0 := createScroller 0,
           1 := (createContainer (dimension (Some c) cfg_w) (dimension (Some c) cfg_h))
                  \<lparr>childNodes := [0]\<rparr>),
        next_node = 2, issued = [], inflight = [], completed = None\<rparr>"
  using assms by (auto simp: VirtualList_def Let_def split: option.splits if_splits)

lemma ctl_inv_VirtualList:
  assumes "VirtualList (Some c) gen = Inr s0"
  shows "ctl_inv s0"
  using assms by (rule VirtualList_Inr) (simp add: ctl_inv_def renderChunk_def)


lemmas example_defs =
  run_def renderChunk_def example_initial_def fetch_done_def callback_def
  updateTotalRows_def on_node_def mark_children_def mark_obsolete_def appendChild_def
  createRow_def onScroll_def repaints_def falsy_def parseInt_div_def Let_def

lemma example_constructed: "VirtualList (Some example_config) example_gen = Inr example_initial"
  by (simp add: VirtualList_def example_config_def example_initial_def renderChunk_def
      dimension_def plus_px_def Math_ceil_div_def Let_def)

subsection \<open>The fetch control\<close>

text \<open>
  Claim C1. After the construction of a list and any sequence of events (window
  requests, scroll checks, answers of the data source, reaper ticks, calls of
  updateTotalRows), at most one request waits for its answer, and the flag \<open>loading\<close>
  is set exactly when one does. A window request that arrives while a request waits
  issues no call of getNodes and leaves \<open>inflight\<close> as it is; a window request that does
  issue a call found no request waiting and \<open>loading\<close> false.
\<close>

theorem C1_one_fetch_in_flight:
  assumes "VirtualList (Some c) gen = Inr s0"
  shows "length (inflight (run evs s0)) \<le> 1
       \<and> (loading (run evs s0) \<longleftrightarrow> inflight (run evs s0) \<noteq> [])
       \<and> (inflight (run evs s0) \<noteq> [] \<longrightarrow>
            issued (step (run evs s0) (Request from)) = issued (run evs s0)
          \<and> inflight (step (run evs s0) (Request from)) = inflight (run evs s0))
       \<and> (issued (step (run evs s0) (Request from)) \<noteq> issued (run evs s0) \<longrightarrow>
            inflight (run evs s0) = [] \<and> \<not> loading (run evs s0))"
proof -
  have "ctl_inv (run evs s0)"
    using assms by (intro ctl_inv_run ctl_inv_VirtualList)
  then show ?thesis
    by (auto simp: ctl_inv_def renderChunk_def)
qed

theorem C1_one_fetch_in_flight_witness:
  "VirtualList (Some example_config) example_gen = Inr example_initial
   \<and> length (inflight (run [Request 7, FetchDone 0 [10, 20] 1000, Request 9] example_initial)) \<le> 1
   \<and> loading (run [Request 7, FetchDone 0 [10, 20] 1000, Request 9] example_initial)
   \<and> inflight (run [Request 7, FetchDone 0 [10, 20] 1000, Request 9] example_initial) = [(1, 7, 30)]
   \<and> issued (step (run [Request 7, FetchDone 0 [10, 20] 1000, Request 9] example_initial)
         (Request 11)) = [(0, 30), (7, 30)]
   \<and> inflight (step (run [Request 7, FetchDone 0 [10, 20] 1000, Request 9] example_initial)
         (Request 11)) = [(1, 7, 30)]"
proof -
  have i: "inflight (run [Request 7, FetchDone 0 [10, 20] 1000, Request 9] example_initial) =
      [(1, 7, 30)]"
    and j: "issued (run [Request 7, FetchDone 0 [10, 20] 1000, Request 9] example_initial) =
      [(0, 30), (7, 30)]"
    by (simp_all add: run_def renderChunk_def example_initial_def fetch_done_def callback_def
        updateTotalRows_def on_node_def mark_children_def mark_obsolete_def appendChild_def
        createRow_def Let_def)
  show ?thesis
    using C1_one_fetch_in_flight [OF example_constructed,
        of "[Request 7, FetchDone 0 [10, 20] 1000, Request 9]" 11] i j
    by (simp add: example_constructed)
qed

lemma fetch_done_cases:
  assumes "ctl_inv s" and "k < length (inflight s)"
  obtains nd f c H m where "inflight s = [(nd, f, c)]" and "k = 0"
    and "fetch_done k items t s =
      (case nextChunk s of
         None \<Rightarrow> s\<lparr>inflight := [], completed := Some (f, c), totalRows := t, heap := H,
                   next_node := m, loading := False\<rparr>
       | Some (nd', from') \<Rightarrow>
           renderChunk nd' from'
             (s\<lparr>inflight := [], completed := Some (f, c), totalRows := t, heap := H,
                next_node := m, loading := False\<rparr>))"
proof -
  from assms have k: "k = 0" and len: "length (inflight s) = 1"
    by (auto simp: ctl_inv_def)
  then obtain nd f c where inf: "inflight s = [(nd, f, c)]"
    by (cases "inflight s") auto
  define s0 where "s0 = s\<lparr>inflight := [], completed := Some (f, c)\<rparr>"
  have fd: "fetch_done k items t s = callback nd f items t s0"
    by (simp add: fetch_done_def k inf s0_def)
  obtain H m where cb: "callback nd f items t s0 =
     (case nextChunk s0 of
        None \<Rightarrow> s0\<lparr>totalRows := t, heap := H, next_node := m, loading := False\<rparr>
      | Some (nd', from') \<Rightarrow>
          renderChunk nd' from' (s0\<lparr>totalRows := t, heap := H, next_node := m, loading := False\<rparr>))"
    using callback_frame by blast
  have "fetch_done k items t s =
      (case nextChunk s of
         None \<Rightarrow> s\<lparr>inflight := [], completed := Some (f, c), totalRows := t, heap := H,
                   next_node := m, loading := False\<rparr>
       | Some (nd', from') \<Rightarrow>
           renderChunk nd' from'
             (s\<lparr>inflight := [], completed := Some (f, c), totalRows := t, heap := H,
                next_node := m, loading := False\<rparr>))"
    apply (subst fd)
    apply (subst cb)
    apply (simp add: s0_def split: option.split)
    done
  from that [OF inf k this] show thesis .
qed

lemma fetch_done_nextChunk:
  assumes "ctl_inv s" and "k < length (inflight s)"
  shows "nextChunk (fetch_done k items t s) = None"
  using assms by (rule fetch_done_cases [where items = items and t = t])
    (auto simp: renderChunk_def split: option.splits)

text \<open>
  Claim C10. After the construction of a list and any sequence of events, a window is
  remembered in \<open>nextChunk\<close> only while \<open>loading\<close> is set, so an idle list remembers
  none; and an event that issues a call of getNodes leaves \<open>nextChunk\<close> empty and
  \<open>loading\<close> set.
\<close>

theorem C10_pending_only_while_loading:
  assumes "VirtualList (Some c) gen = Inr s0"
  shows "(nextChunk (run evs s0) \<noteq> None \<longrightarrow> loading (run evs s0))
       \<and> (\<not> loading (run evs s0) \<longrightarrow> nextChunk (run evs s0) = None)
       \<and> (issued (step (run evs s0) e) \<noteq> issued (run evs s0) \<longrightarrow>
            nextChunk (step (run evs s0) e) = None \<and> loading (step (run evs s0) e))"
proof -
  define s where "s = run evs s0"
  have inv: "ctl_inv s"
    unfolding s_def using assms by (intro ctl_inv_run ctl_inv_VirtualList)
  have inv': "ctl_inv (step s e)"
    using inv by (rule ctl_inv_step)
  have a: "nextChunk s \<noteq> None \<longrightarrow> loading s"
    using inv by (auto simp: ctl_inv_def)
  have b: "issued (step s e) \<noteq> issued s \<longrightarrow> nextChunk (step s e) = None"
  proof (cases e)
    case (Request f)
    then show ?thesis by (simp add: renderChunk_def)
  next
    case (ScrollCheck y now)
    then show ?thesis by (simp add: onScroll_def renderChunk_def Let_def)
  next
    case (FetchDone k items t)
    show ?thesis
    proof (cases "k < length (inflight s)")
      case True
      then show ?thesis using inv FetchDone by (simp add: fetch_done_nextChunk)
    next
      case False
      then show ?thesis using FetchDone by (simp add: fetch_done_def)
    qed
  next
    case (ReaperTick now doc)
    obtain H where "snd (rmNodeInterval now doc s) = s\<lparr>heap := H\<rparr>"
      using rmNodeInterval_frame by blast
    then show ?thesis using ReaperTick by simp
  next
    case (UpdateTotalRows n)
    obtain H where "updateTotalRows n s = s\<lparr>totalRows := n, heap := H\<rparr>"
      using updateTotalRows_frame by blast
    then show ?thesis using UpdateTotalRows by simp
  qed
  have c: "issued (step s e) \<noteq> issued s \<longrightarrow> loading (step s e)"
  proof (cases e)
    case (Request f)
    then show ?thesis by (simp add: renderChunk_def)
  next
    case (ScrollCheck y now)
    then show ?thesis by (simp add: onScroll_def renderChunk_def Let_def)
  next
    case (FetchDone k items t)
    show ?thesis
    proof (cases "k < length (inflight s)")
      case True
      with inv show ?thesis unfolding FetchDone step.simps
        by (rule fetch_done_cases [where items = items and t = t])
          (auto simp: renderChunk_def split: option.splits)
    next
      case False
      then show ?thesis using FetchDone by (simp add: fetch_done_def)
    qed
  next
    case (ReaperTick now doc)
    obtain H where "snd (rmNodeInterval now doc s) = s\<lparr>heap := H\<rparr>"
      using rmNodeInterval_frame by blast
    then show ?thesis using ReaperTick by simp
  next
    case (UpdateTotalRows n)
    obtain H where "updateTotalRows n s = s\<lparr>totalRows := n, heap := H\<rparr>"
      using updateTotalRows_frame by blast
    then show ?thesis using UpdateTotalRows by simp
  qed
  show ?thesis
    using a b c unfolding s_def by blast
qed

theorem C10_pending_only_while_loading_witness:
  "VirtualList (Some example_config) example_gen = Inr example_initial
   \<and> nextChunk (run [Request 7] example_initial) = Some (1, 7)
   \<and> loading (run [Request 7] example_initial)
   \<and> issued (step (run [Request 7] example_initial) (FetchDone 0 [10, 20] 1000)) \<noteq>
       issued (run [Request 7] example_initial)
   \<and> nextChunk (step (run [Request 7] example_initial) (FetchDone 0 [10, 20] 1000)) = None
   \<and> loading (step (run [Request 7] example_initial) (FetchDone 0 [10, 20] 1000))
   \<and> \<not> loading (run [FetchDone 0 [10, 20] 1000] example_initial)
   \<and> nextChunk (run [FetchDone 0 [10, 20] 1000] example_initial) = None"
proof -
  have a: "nextChunk (run [Request 7] example_initial) = Some (1, 7)"
    and b: "issued (step (run [Request 7] example_initial) (FetchDone 0 [10, 20] 1000)) \<noteq>
       issued (run [Request 7] example_initial)"
    and c: "\<not> loading (run [FetchDone 0 [10, 20] 1000] example_initial)"
    by (simp_all add: example_defs)
  show ?thesis
    using C10_pending_only_while_loading [OF example_constructed,
        of "[Request 7]" "FetchDone 0 [10, 20] 1000"]
      C10_pending_only_while_loading [OF example_constructed,
        of "[FetchDone 0 [10, 20] 1000]" "Request 0"]
      a b c
    by (simp add: example_constructed)
qed

text \<open>
  Claim C2. From an idle list (not loading, no request waiting), three window
  requests for \<open>a\<close>, \<open>b\<close> and \<open>c\<close> issue one call of getNodes, for \<open>a\<close>, and leave \<open>c\<close>
  remembered. The answer to the first call issues the second, for \<open>c\<close>; the answer to
  the second issues none and leaves the list idle. The calls are those two: \<open>b\<close> is
  never fetched.
\<close>

theorem C2_three_requests_two_fetches:
  assumes "\<not> loading s" and "inflight s = []"
  shows "issued (run [Request a, Request b, Request c] s) = issued s @ [(a, cachedItemsLen s)]
       \<and> inflight (run [Request a, Request b, Request c] s) = [(container s, a, cachedItemsLen s)]
       \<and> nextChunk (run [Request a, Request b, Request c] s) = Some (container s, c)
       \<and> issued (run [Request a, Request b, Request c, FetchDone 0 items1 n1] s) =
             issued s @ [(a, cachedItemsLen s), (c, cachedItemsLen s)]
       \<and> inflight (run [Request a, Request b, Request c, FetchDone 0 items1 n1] s) =
             [(container s, c, cachedItemsLen s)]
       \<and> nextChunk (run [Request a, Request b, Request c, FetchDone 0 items1 n1] s) = None
       \<and> issued (run [Request a, Request b, Request c, FetchDone 0 items1 n1,
                        FetchDone 0 items2 n2] s) =
             issued s @ [(a, cachedItemsLen s), (c, cachedItemsLen s)]
       \<and> inflight (run [Request a, Request b, Request c, FetchDone 0 items1 n1,
                          FetchDone 0 items2 n2] s) = []
       \<and> \<not> loading (run [Request a, Request b, Request c, FetchDone 0 items1 n1,
                            FetchDone 0 items2 n2] s)
       \<and> nextChunk (run [Request a, Request b, Request c, FetchDone 0 items1 n1,
                           FetchDone 0 items2 n2] s) = None"
proof -
  define s3 where "s3 = run [Request a, Request b, Request c] s"
  have s3: "s3 = s\<lparr>nextChunk := Some (container s, c), loading := True,
                    issued := issued s @ [(a, cachedItemsLen s)],
                    inflight := [(container s, a, cachedItemsLen s)]\<rparr>"
    using assms by (simp add: s3_def run_def renderChunk_def)
  define s3' where "s3' = s3\<lparr>inflight := [], completed := Some (a, cachedItemsLen s)\<rparr>"
  obtain H m where cb: "callback (container s) a items1 n1 s3' =
     (case nextChunk s3' of
        None \<Rightarrow> s3'\<lparr>totalRows := n1, heap := H, next_node := m, loading := False\<rparr>
      | Some (nd', from') \<Rightarrow>
          renderChunk nd' from' (s3'\<lparr>totalRows := n1, heap := H, next_node := m, loading := False\<rparr>))"
    using callback_frame by blast
  define s4 where "s4 = step s3 (FetchDone 0 items1 n1)"
  have s4: "s4 = s\<lparr>nextChunk := None, loading := True,
                    issued := issued s @ [(a, cachedItemsLen s), (c, cachedItemsLen s)],
                    inflight := [(container s, c, cachedItemsLen s)],
                    completed := Some (a, cachedItemsLen s),
                    totalRows := n1, heap := H, next_node := m\<rparr>"
    unfolding s4_def by (simp add: fetch_done_def s3 cb [unfolded s3'_def s3, simplified] renderChunk_def)
  define s4' where "s4' = s4\<lparr>inflight := [], completed := Some (c, cachedItemsLen s)\<rparr>"
  obtain H' m' where cb': "callback (container s) c items2 n2 s4' =
     (case nextChunk s4' of
        None \<Rightarrow> s4'\<lparr>totalRows := n2, heap := H', next_node := m', loading := False\<rparr>
      | Some (nd', from') \<Rightarrow>
          renderChunk nd' from' (s4'\<lparr>totalRows := n2, heap := H', next_node := m', loading := False\<rparr>))"
    using callback_frame by blast
  define s5 where "s5 = step s4 (FetchDone 0 items2 n2)"
  have s5: "s5 = s\<lparr>nextChunk := None, loading := False,
                    issued := issued s @ [(a, cachedItemsLen s), (c, cachedItemsLen s)],
                    inflight := [],
                    completed := Some (c, cachedItemsLen s),
                    totalRows := n2, heap := H', next_node := m'\<rparr>"
    unfolding s5_def by (simp add: fetch_done_def s4 cb' [unfolded s4'_def s4, simplified])
  have r4: "run [Request a, Request b, Request c, FetchDone 0 items1 n1] s = s4"
    by (simp add: s4_def s3_def run_def)
  have r5: "run [Request a, Request b, Request c, FetchDone 0 items1 n1, FetchDone 0 items2 n2] s = s5"
    by (simp add: s5_def s4_def s3_def run_def)
  show ?thesis
    unfolding r4 r5 s3_def [symmetric] by (simp add: s3 s4 s5)
qed

theorem C2_three_requests_two_fetches_witness:
  "\<not> loading (run [FetchDone 0 [10, 20] 1000] example_initial)
   \<and> inflight (run [FetchDone 0 [10, 20] 1000] example_initial) = []
   \<and> issued (run [Request 5, Request 6, Request 7]
         (run [FetchDone 0 [10, 20] 1000] example_initial)) = [(0, 30), (5, 30)]
   \<and> nextChunk (run [Request 5, Request 6, Request 7]
         (run [FetchDone 0 [10, 20] 1000] example_initial)) = Some (1, 7)
   \<and> issued (run [Request 5, Request 6, Request 7, FetchDone 0 [30] 1000]
         (run [FetchDone 0 [10, 20] 1000] example_initial)) = [(0, 30), (5, 30), (7, 30)]
   \<and> issued (run [Request 5, Request 6, Request 7, FetchDone 0 [30] 1000, FetchDone 0 [40] 1000]
         (run [FetchDone 0 [10, 20] 1000] example_initial)) = [(0, 30), (5, 30), (7, 30)]
   \<and> inflight (run [Request 5, Request 6, Request 7, FetchDone 0 [30] 1000, FetchDone 0 [40] 1000]
         (run [FetchDone 0 [10, 20] 1000] example_initial)) = []
   \<and> \<not> loading (run [Request 5, Request 6, Request 7, FetchDone 0 [30] 1000, FetchDone 0 [40] 1000]
         (run [FetchDone 0 [10, 20] 1000] example_initial))"
proof -
  define s where "s = run [FetchDone 0 [10, 20] 1000] example_initial"
  have a: "\<not> loading s" and b: "inflight s = []" and c: "issued s = [(0, 30)]"
    and d: "cachedItemsLen s = 30" and e: "container s = 1"
    by (simp_all add: s_def example_defs)
  show ?thesis
    using C2_three_requests_two_fetches [OF a b, of 5 6 7 "[30]" 1000 "[40]" 1000] a b
    unfolding s_def [symmetric] by (simp add: c d e)
qed

subsection \<open>Arithmetic of the window\<close>

lemma Math_ceil_div_ceiling: "Math_ceil_div a b = \<lceil>real_of_int a / real_of_int b\<rceil>"
proof -
  have "\<lceil>real_of_int a / real_of_int b\<rceil> = - \<lfloor>real_of_int (- a) / real_of_int b\<rfloor>"
    by (simp add: ceiling_def)
  also have "\<dots> = - ((- a) div b)"
    by (simp only: floor_divide_of_int_eq)
  finally show ?thesis by (simp add: Math_ceil_div_def)
qed


text \<open>
  Claim C4. For every \<open>n\<close>, updateTotalRows stores \<open>n\<close> as the total row count and sets
  the height of the scroller to \<open>itemHeight * n\<close> pixels; a second call with the same
  \<open>n\<close> changes nothing.
\<close>

theorem C4_updateTotalRows:
  "totalRows (updateTotalRows n s) = n
   \<and> style (heap (updateTotalRows n s) (scroller (updateTotalRows n s))) ''height'' =
       Some (Px (itemHeight s * n))
   \<and> scroller (updateTotalRows n s) = scroller s
   \<and> updateTotalRows n (updateTotalRows n s) = updateTotalRows n s"
  by (simp add: updateTotalRows_def on_node_def set_style_def Let_def)

subsection \<open>What no event changes\<close>

lemma step_constants:
  "itemHeight (step s e) = itemHeight s \<and> cachedItemsLen (step s e) = cachedItemsLen s
   \<and> screenItemsLen (step s e) = screenItemsLen s \<and> maxBuffer (step s e) = maxBuffer s
   \<and> container (step s e) = container s \<and> scroller (step s e) = scroller s
   \<and> generatorFn (step s e) = generatorFn s"
proof (cases e)
  case (Request f)
  then show ?thesis by (simp add: renderChunk_def)
next
  case (ScrollCheck y now)
  then show ?thesis by (simp add: onScroll_def renderChunk_def Let_def)
next
  case (FetchDone k items t)
  show ?thesis
  proof (cases "k < length (inflight s)")
    case False
    then show ?thesis using FetchDone by (simp add: fetch_done_def)
  next
    case True
    obtain nd f c where i: "inflight s ! k = (nd, f, c)"
      by (cases "inflight s ! k")
    obtain H m where "callback nd f items t
        (s\<lparr>inflight := take k (inflight s) @ drop (Suc k) (inflight s), completed := Some (f, c)\<rparr>) =
      (case nextChunk (s\<lparr>inflight := take k (inflight s) @ drop (Suc k) (inflight s),
                         completed := Some (f, c)\<rparr>) of
         None \<Rightarrow> s\<lparr>inflight := take k (inflight s) @ drop (Suc k) (inflight s),
                   completed := Some (f, c)\<rparr>
                  \<lparr>totalRows := t, heap := H, next_node := m, loading := False\<rparr>
       | Some (nd', from') \<Rightarrow>
           renderChunk nd' from'
             (s\<lparr>inflight := take k (inflight s) @ drop (Suc k) (inflight s),
                completed := Some (f, c)\<rparr>
               \<lparr>totalRows := t, heap := H, next_node := m, loading := False\<rparr>))"
      using callback_frame by blast
    then show ?thesis
      using True FetchDone i by (simp add: fetch_done_def renderChunk_def split: option.split)
  qed
next
  case (ReaperTick now doc)
  obtain H where "snd (rmNodeInterval now doc s) = s\<lparr>heap := H\<rparr>"
    using rmNodeInterval_frame by blast
  then show ?thesis using ReaperTick by simp
next
  case (UpdateTotalRows n)
  obtain H where "updateTotalRows n s = s\<lparr>totalRows := n, heap := H\<rparr>"
    using updateTotalRows_frame by blast
  then show ?thesis using UpdateTotalRows by simp
qed

lemma run_constants:
  "itemHeight (run evs s) = itemHeight s \<and> cachedItemsLen (run evs s) = cachedItemsLen s
   \<and> screenItemsLen (run evs s) = screenItemsLen s \<and> maxBuffer (run evs s) = maxBuffer s
   \<and> container (run evs s) = container s \<and> scroller (run evs s) = scroller s
   \<and> generatorFn (run evs s) = generatorFn s"
proof (induction evs arbitrary: s)
  case Nil
  show ?case by (simp add: run_Nil)
next
  case (Cons e evs)
  show ?case
    using Cons.IH [of "step s e"] step_constants [of s e] by (simp add: run_Cons)
qed

text \<open>
  Claim C5. The constructor issues one call of getNodes, for the window that starts
  at 0, and every call issued then or later asks for \<open>cachedItemsLen\<close> items, three times
  the ceiling of the configured height over the row height. With rows of 20 pixels
  and a height of 200 the first call is getNodes(0, 30).
\<close>

theorem C5_fetch_count:
  assumes "VirtualList (Some c) gen = Inr s0" and "cfg_h c = Some h"
  shows "issued s0 = [(0, 3 * \<lceil>real_of_int h / real_of_int (cfg_itemHeight c)\<rceil>)]
       \<and> cachedItemsLen (run evs s0) = 3 * \<lceil>real_of_int h / real_of_int (cfg_itemHeight c)\<rceil>
       \<and> (\<forall>e \<in> set (issued (run evs s0)).
             snd e = 3 * \<lceil>real_of_int h / real_of_int (cfg_itemHeight c)\<rceil>)"
proof -
  have len: "cachedItemsLen s0 = 3 * \<lceil>real_of_int h / real_of_int (cfg_itemHeight c)\<rceil>"
    and iss: "issued s0 = [(0, 3 * \<lceil>real_of_int h / real_of_int (cfg_itemHeight c)\<rceil>)]"
    using assms(1)
    by (rule VirtualList_Inr; simp add: assms(2) renderChunk_def Math_ceil_div_ceiling)+
  have "ctl_inv (run evs s0)"
    using assms(1) by (intro ctl_inv_run ctl_inv_VirtualList)
  then have "\<forall>e \<in> set (issued (run evs s0)). snd e = cachedItemsLen (run evs s0)"
    by (simp add: ctl_inv_def)
  then show ?thesis
    using len iss run_constants [of evs s0] by simp
qed

theorem C5_fetch_count_witness:
  "VirtualList (Some example_config) example_gen = Inr example_initial
   \<and> cfg_h example_config = Some 200
   \<and> cfg_itemHeight example_config = 20
   \<and> issued example_initial = [(0, 30)]
   \<and> issued (run [FetchDone 0 [10, 20] 1000, ScrollCheck 5000 300] example_initial) =
       [(0, 30), (240, 30)]"
proof -
  have h: "cfg_h example_config = Some 200" and ih: "cfg_itemHeight example_config = 20"
    by (simp_all add: example_config_def)
  have r: "issued (run [FetchDone 0 [10, 20] 1000, ScrollCheck 5000 300] example_initial) =
       [(0, 30), (240, 30)]"
    by (simp add: example_defs)
  show ?thesis
    using C5_fetch_count [OF example_constructed h,
        of "[FetchDone 0 [10, 20] 1000, ScrollCheck 5000 300]"] r
    by (simp add: example_constructed h ih)
qed




subsection \<open>The fields of the state after an answer\<close>

lemma fetch_done_frame:
  assumes "k < length (inflight s)"
  shows "\<exists>H m. fetch_done k items t s =
      (case nextChunk s of
         None \<Rightarrow>
           s\<lparr>inflight := take k (inflight s) @ drop (Suc k) (inflight s),
             completed := Some (snd (inflight s ! k)),
             totalRows := t, heap := H, next_node := m, loading := False\<rparr>
       | Some (nd', from') \<Rightarrow>
           renderChunk nd' from'
             (s\<lparr>inflight := take k (inflight s) @ drop (Suc k) (inflight s),
                completed := Some (snd (inflight s ! k)),
                totalRows := t, heap := H, next_node := m, loading := False\<rparr>))"
proof -
  obtain nd f c where i: "inflight s ! k = (nd, f, c)"
    by (cases "inflight s ! k")
  define s0 where "s0 = s\<lparr>inflight := take k (inflight s) @ drop (Suc k) (inflight s),
    completed := Some (f, c)\<rparr>"
  have fd: "fetch_done k items t s = callback nd f items t s0"
    using assms by (simp add: fetch_done_def i s0_def)
  obtain H m where cb: "callback nd f items t s0 =
     (case nextChunk s0 of
        None \<Rightarrow> s0\<lparr>totalRows := t, heap := H, next_node := m, loading := False\<rparr>
      | Some (nd', from') \<Rightarrow>
          renderChunk nd' from' (s0\<lparr>totalRows := t, heap := H, next_node := m, loading := False\<rparr>))"
    using callback_frame by blast
  show ?thesis
    apply (rule exI [of _ H])
    apply (rule exI [of _ m])
    apply (subst fd)
    apply (subst cb)
    apply (simp add: s0_def i split: option.split)
    done
qed

lemma fetch_done_control:
  assumes "k < length (inflight s)"
  shows "loading (fetch_done k items t s) = (nextChunk s \<noteq> None)"
    and "nextChunk (fetch_done k items t s) = None"
    and "issued (fetch_done k items t s) =
      issued s @ (case nextChunk s of None \<Rightarrow> [] | Some (nd, f) \<Rightarrow> [(f, cachedItemsLen s)])"
    and "inflight (fetch_done k items t s) =
      take k (inflight s) @ drop (Suc k) (inflight s) @
      (case nextChunk s of None \<Rightarrow> [] | Some (nd, f) \<Rightarrow> [(nd, f, cachedItemsLen s)])"
    and "lastRepaintY (fetch_done k items t s) = lastRepaintY s"
    and "lastScrolled (fetch_done k items t s) = lastScrolled s"
    and "completed (fetch_done k items t s) = Some (snd (inflight s ! k))"
    and "totalRows (fetch_done k items t s) = t"
proof -
  obtain H m where "fetch_done k items t s =
      (case nextChunk s of
         None \<Rightarrow>
           s\<lparr>inflight := take k (inflight s) @ drop (Suc k) (inflight s),
             completed := Some (snd (inflight s ! k)),
             totalRows := t, heap := H, next_node := m, loading := False\<rparr>
       | Some (nd', from') \<Rightarrow>
           renderChunk nd' from'
             (s\<lparr>inflight := take k (inflight s) @ drop (Suc k) (inflight s),
                completed := Some (snd (inflight s ! k)),
                totalRows := t, heap := H, next_node := m, loading := False\<rparr>))"
    using fetch_done_frame [OF assms] by blast
  then show "loading (fetch_done k items t s) = (nextChunk s \<noteq> None)"
    and "nextChunk (fetch_done k items t s) = None"
    and "issued (fetch_done k items t s) =
      issued s @ (case nextChunk s of None \<Rightarrow> [] | Some (nd, f) \<Rightarrow> [(f, cachedItemsLen s)])"
    and "inflight (fetch_done k items t s) =
      take k (inflight s) @ drop (Suc k) (inflight s) @
      (case nextChunk s of None \<Rightarrow> [] | Some (nd, f) \<Rightarrow> [(nd, f, cachedItemsLen s)])"
    and "lastRepaintY (fetch_done k items t s) = lastRepaintY s"
    and "lastScrolled (fetch_done k items t s) = lastScrolled s"
    and "completed (fetch_done k items t s) = Some (snd (inflight s ! k))"
    and "totalRows (fetch_done k items t s) = t"
    by (simp_all add: renderChunk_def split: option.split)
qed

lemma fetch_done_constants:
  "itemHeight (fetch_done k items t s) = itemHeight s"
  "cachedItemsLen (fetch_done k items t s) = cachedItemsLen s"
  "screenItemsLen (fetch_done k items t s) = screenItemsLen s"
  "maxBuffer (fetch_done k items t s) = maxBuffer s"
  "container (fetch_done k items t s) = container s"
  "scroller (fetch_done k items t s) = scroller s"
  using step_constants [of s "FetchDone k items t"] by simp_all

lemmas control_defs =
  run_def renderChunk_def onScroll_def repaints_def falsy_def parseInt_div_def Let_def
  fetch_done_control fetch_done_constants

subsection \<open>The scroll check\<close>

text \<open>
  A check that has moved by at most \<open>maxBuffer\<close> from a reference offset other than 0
  records the time and does nothing else.
\<close>

lemma onScroll_within_buffer:
  assumes "lastRepaintY s = Some y" and "y \<noteq> 0" and "\<bar>scrollTop - y\<bar> \<le> maxBuffer s"
  shows "onScroll scrollTop now s = s\<lparr>lastScrolled := now\<rparr>"
  using assms by (simp add: onScroll_def repaints_def falsy_def)

text \<open>
  Claim C7 fails on the code. The example list is scrolled to 5000 and back to 0;
  both checks repaint, and the second leaves \<open>lastRepaintY = Some 0\<close>, which
  \<^verbatim>\<open>!lastRepaintY\<close> takes for \<^verbatim>\<open>undefined\<close>. The next check, at offset 10, has moved by 10
  pixels, with \<open>maxBuffer = 200\<close>, and issues getNodes(0, 30) all the same.
\<close>

theorem C7_zero_offset_always_repaints:
  "lastRepaintY (run [FetchDone 0 [10, 20] 1000, ScrollCheck 5000 300, FetchDone 0 [30] 1000,
                      ScrollCheck 0 900, FetchDone 0 [10, 20] 1000] example_initial) = Some 0
   \<and> maxBuffer (run [FetchDone 0 [10, 20] 1000, ScrollCheck 5000 300, FetchDone 0 [30] 1000,
                      ScrollCheck 0 900, FetchDone 0 [10, 20] 1000] example_initial) = 200
   \<and> issued (run [FetchDone 0 [10, 20] 1000, ScrollCheck 5000 300, FetchDone 0 [30] 1000,
                      ScrollCheck 0 900, FetchDone 0 [10, 20] 1000] example_initial) =
       [(0, 30), (240, 30), (0, 30)]
   \<and> issued (run [FetchDone 0 [10, 20] 1000, ScrollCheck 5000 300, FetchDone 0 [30] 1000,
                      ScrollCheck 0 900, FetchDone 0 [10, 20] 1000, ScrollCheck 10 1500]
                 example_initial) =
       [(0, 30), (240, 30), (0, 30), (0, 30)]"
  by (simp add: control_defs example_initial_def)



lemmas heap_defs =
  run_def renderChunk_def fetch_done_def callback_def updateTotalRows_def on_node_def
  mark_children_def mark_obsolete_def appendChild_def createRow_def Let_def

subsection \<open>The reaper\<close>

text \<open>
  When the flagged elements of the document are the flagged children of the
  container, a tick after the quiet threshold removes exactly those children and
  throws nothing.
\<close>

lemma on_node_on_node:
  "on_node n g (on_node n f s) = on_node n (\<lambda>e. g (f e)) s"
  by (simp add: on_node_def)

lemma removeChildren_own:
  assumes "distinct (childNodes (heap s (container s)))" and "distinct ns"
    and "set ns \<subseteq> set (childNodes (heap s (container s)))"
  shows "removeChildren ns s =
     (None, on_node (container s)
        (\<lambda>e. e\<lparr>childNodes := filter (\<lambda>n. n \<notin> set ns) (childNodes (heap s (container s)))\<rparr>) s)"
  using assms
proof (induction ns arbitrary: s)
  case Nil
  have "on_node (container s) (\<lambda>e. e\<lparr>childNodes := childNodes (heap s (container s))\<rparr>) s = s"
    by (simp add: on_node_def)
  then show ?case by simp
next
  case (Cons a ns)
  define cs where "cs = childNodes (heap s (container s))"
  define s1 where "s1 = on_node (container s) (\<lambda>e. e\<lparr>childNodes := remove1 a (childNodes e)\<rparr>) s"
  have a: "a \<in> set cs" and an: "a \<notin> set ns" and dn: "distinct ns" and sub: "set ns \<subseteq> set cs"
    and dc: "distinct cs"
    using Cons.prems by (auto simp: cs_def)
  have c1: "container s1 = container s" and ch1: "childNodes (heap s1 (container s)) = remove1 a cs"
    by (simp_all add: s1_def on_node_def cs_def)
  have d1: "distinct (childNodes (heap s1 (container s1)))"
    using dc by (simp add: c1 ch1)
  have sub1: "set ns \<subseteq> set (childNodes (heap s1 (container s1)))"
    using sub an dc by (auto simp: c1 ch1)
  have f: "filter (\<lambda>n. n \<notin> set ns) (remove1 a cs) = filter (\<lambda>n. n \<notin> set (a # ns)) cs"
  proof -
    have "remove1 a cs = filter (\<lambda>n. a \<noteq> n) cs"
      using dc by (simp add: distinct_remove1_removeAll removeAll_filter_not_eq)
    then show ?thesis
      by (auto intro: filter_cong)
  qed
  have "removeChildren ns s1 =
     (None, on_node (container s1)
        (\<lambda>e. e\<lparr>childNodes := filter (\<lambda>n. n \<notin> set ns) (childNodes (heap s1 (container s1)))\<rparr>) s1)"
    using d1 dn sub1 by (rule Cons.IH)
  also have "on_node (container s1)
        (\<lambda>e. e\<lparr>childNodes := filter (\<lambda>n. n \<notin> set ns) (childNodes (heap s1 (container s1)))\<rparr>) s1 =
      on_node (container s)
        (\<lambda>e. e\<lparr>childNodes := filter (\<lambda>n. n \<notin> set (a # ns)) cs\<rparr>) s"
    unfolding c1 ch1 f by (simp add: s1_def on_node_on_node)
  finally show ?case
    using a by (simp add: s1_def [symmetric] cs_def [symmetric])
qed

lemma rmNodeInterval_own_rows:
  assumes "100 < now - lastScrolled s"
    and "distinct (childNodes (heap s (container s)))"
    and "querySelectorAll_rm doc s = filter (flagged s) (childNodes (heap s (container s)))"
  shows "rmNodeInterval now doc s =
     (None, on_node (container s)
        (\<lambda>e. e\<lparr>childNodes := filter (\<lambda>n. \<not> flagged s n) (childNodes (heap s (container s)))\<rparr>) s)"
proof -
  define cs where "cs = childNodes (heap s (container s))"
  have "filter (\<lambda>n. n \<notin> set (filter (flagged s) cs)) cs = filter (\<lambda>n. \<not> flagged s n) cs"
    by (rule filter_cong) auto
  then show ?thesis
    using assms(1) removeChildren_own [of s "filter (flagged s) cs"] assms(2)
    by (simp add: rmNodeInterval_def assms(3) cs_def [symmetric])
qed

subsection \<open>The reaper on the example page\<close>

lemma example_two_fetches_children:
  "childNodes (heap example_two_fetches 1) = [0, 2, 3, 4]"
  by (simp add: example_two_fetches_def example_initial_def heap_defs)

lemma example_two_fetches_flagged:
  "filter (flagged example_two_fetches) [1, 0, 2, 3, 4] = [2, 3]"
  by (simp add: example_two_fetches_def example_initial_def heap_defs flagged_def
      setAttribute_def set_style_def classList_add_def createElement_def createScroller_def
      createContainer_def example_gen_def)



lemma example_two_fetches_fields:
  "next_node example_two_fetches = 5" "container example_two_fetches = 1"
  "lastScrolled example_two_fetches = 0"
  by (simp_all add: example_two_fetches_def example_initial_def control_defs
      fetch_done_def callback_def updateTotalRows_def on_node_def
      mark_children_def mark_obsolete_def appendChild_def createRow_def)

lemma example_page_fields:
  "container example_page = 1" "lastScrolled example_page = 0"
  "childNodes (heap example_page (Suc 0)) = [0, 2, 3, 4]"
  unfolding example_page_def
  by (simp_all add: example_two_fetches_fields example_two_fetches_children [simplified])


lemma example_page_flagged:
  "flagged example_page n = (n = 5 \<or> flagged example_two_fetches n)"
  by (simp add: example_page_def flagged_def example_two_fetches_fields setAttribute_def)

lemma example_page_query:
  "querySelectorAll_rm [5, 1, 0, 2, 3, 4] example_page = [5, 2, 3]"
  using example_two_fetches_flagged
  by (simp add: querySelectorAll_rm_def example_page_flagged split: if_splits)

text \<open>
  Claim C8 fails on the code. On \<open>example_page\<close> the container holds the scroller 0,
  the obsolete rows 2 and 3 and the live row 4, and element 5, which is not a child
  of the container, carries the flag too and comes first in the document. A tick
  after the quiet threshold selects 5, 2 and 3 from the document; removeChild throws
  on 5, and rows 2 and 3 stay in the container. With a container that is not in the
  document the tick selects nothing and removes nothing.
\<close>

theorem C8_foreign_flagged_element_stops_the_reaper:
  "lastScrolled example_page = 0
   \<and> childNodes (heap example_page (container example_page)) = [0, 2, 3, 4]
   \<and> querySelectorAll_rm [5, 1, 0, 2, 3, 4] example_page = [5, 2, 3]
   \<and> fst (rmNodeInterval 1000 [5, 1, 0, 2, 3, 4] example_page) = Some NotFoundError
   \<and> childNodes (heap (snd (rmNodeInterval 1000 [5, 1, 0, 2, 3, 4] example_page))
         (container example_page)) = [0, 2, 3, 4]
   \<and> fst (rmNodeInterval 1000 [] example_page) = None
   \<and> childNodes (heap (snd (rmNodeInterval 1000 [] example_page))
         (container example_page)) = [0, 2, 3, 4]"
proof -
  have q: "querySelectorAll_rm [] example_page = []"
    by (simp add: querySelectorAll_rm_def)
  show ?thesis
    unfolding rmNodeInterval_def example_page_query q
    by (simp add: example_page_fields)
qed

subsection \<open>The dimensions of the container\<close>

text \<open>
  Claim C9 fails on the code. With a configuration object, the dimension passed to
  createContainer is \<^verbatim>\<open>config.w + 'px'\<close> whatever \<^verbatim>\<open>config.w\<close> is: for an omitted
  width it is the string \<^verbatim>\<open>'undefinedpx'\<close>, which is truthy, so \<^verbatim>\<open>'100%'\<close> is never
  chosen. Only an absent configuration reaches \<^verbatim>\<open>'100%'\<close>, and then the constructor
  throws on its next line.
\<close>

theorem C9_width_never_defaults:
  "dimension (Some c) fld = plus_px (fld c)
   \<and> dimension (Some c) fld \<noteq> Lit ''100%''
   \<and> dimension (Some \<lparr>cfg_w = None, cfg_h = Some 200, cfg_itemHeight = 20\<rparr>) cfg_w =
       Lit ''undefinedpx''
   \<and> dimension (Some \<lparr>cfg_w = Some 300, cfg_h = None, cfg_itemHeight = 20\<rparr>) cfg_h =
       Lit ''undefinedpx''
   \<and> map_sum id (\<lambda>s. style (heap s (container s)) ''width'')
         (VirtualList (Some \<lparr>cfg_w = None, cfg_h = Some 200, cfg_itemHeight = 20\<rparr>) example_gen) =
       Inr (Some (Lit ''undefinedpx''))
   \<and> VirtualList None gen = Inl TypeError"
proof -
  have a: "dimension (Some c) fld = plus_px (fld c)"
    by (cases "fld c") (simp_all add: dimension_def plus_px_def)
  have b: "plus_px (fld c) \<noteq> Lit ''100%''"
    by (cases "fld c") (simp_all add: plus_px_def)
  have d: "map_sum id (\<lambda>s. style (heap s (container s)) ''width'')
         (VirtualList (Some \<lparr>cfg_w = None, cfg_h = Some 200, cfg_itemHeight = 20\<rparr>) example_gen) =
       Inr (Some (Lit ''undefinedpx''))"
    by (simp add: VirtualList_def dimension_def plus_px_def Math_ceil_div_def renderChunk_def
        createContainer_def set_style_def Let_def)
  show ?thesis
    using a b d by (simp add: dimension_def plus_px_def VirtualList_def)
qed

subsection \<open>The rows after an answer\<close>

lemma fragment_rows_nodes:
  "fst (fragment_rows xs k s) = [next_node s ..< next_node s + length xs]"
proof (induction xs arbitrary: k s)
  case Nil
  show ?case by simp
next
  case (Cons x xs)
  have n1: "next_node (snd (createRow x k s)) = Suc (next_node s)"
    and f1: "fst (createRow x k s) = next_node s"
    by (simp_all add: createRow_def Let_def)
  have u: "[next_node s ..< next_node s + length (x # xs)] =
      next_node s # [Suc (next_node s) ..< Suc (next_node s) + length xs]"
    by (subst upt_conv_Cons) (simp_all del: upt_Suc)
  have "fst (fragment_rows (x # xs) k s) =
      next_node s # fst (fragment_rows xs (k + 1) (snd (createRow x k s)))"
    by (simp add: split_def Let_def f1)
  then show ?case
    unfolding u using Cons.IH [of "k + 1" "snd (createRow x k s)"] by (simp only: n1)
qed

lemma fragment_rows_next:
  "next_node (snd (fragment_rows xs k s)) = next_node s + length xs"
proof -
  obtain H where "snd (fragment_rows xs k s) = s\<lparr>heap := H, next_node := next_node s + length xs\<rparr>"
    using fragment_rows_frame by blast
  then show ?thesis by simp
qed

lemma fragment_rows_itemHeight:
  "itemHeight (snd (fragment_rows xs k s)) = itemHeight s"
proof -
  obtain H where "snd (fragment_rows xs k s) = s\<lparr>heap := H, next_node := next_node s + length xs\<rparr>"
    using fragment_rows_frame by blast
  then show ?thesis by simp
qed

lemma fragment_rows_heap_old:
  "n < next_node s \<Longrightarrow> heap (snd (fragment_rows xs k s)) n = heap s n"
proof (induction xs arbitrary: k s)
  case Nil
  show ?case by simp
next
  case (Cons x xs)
  have n1: "next_node (snd (createRow x k s)) = Suc (next_node s)"
    and h1: "heap (snd (createRow x k s)) n = heap s n"
    using Cons.prems by (simp_all add: createRow_def Let_def)
  have "heap (snd (fragment_rows xs (k + 1) (snd (createRow x k s)))) n =
        heap (snd (createRow x k s)) n"
    using Cons.prems by (intro Cons.IH) (simp add: n1)
  moreover have "snd (fragment_rows (x # xs) k s) =
      snd (fragment_rows xs (k + 1) (snd (createRow x k s)))"
    by (simp add: split_def Let_def)
  ultimately show ?case by (simp only: h1)
qed

lemma fragment_rows_heap_new:
  "i < length xs \<Longrightarrow>
   style (heap (snd (fragment_rows xs k s)) (next_node s + i)) ''top'' =
     Some (Px ((k + int i) * itemHeight s))"
proof (induction xs arbitrary: k s i)
  case Nil
  then show ?case by simp
next
  case (Cons x xs)
  define s1 where "s1 = snd (createRow x k s)"
  have n1: "next_node s1 = Suc (next_node s)"
    and ih1: "itemHeight s1 = itemHeight s"
    and h1: "style (heap s1 (next_node s)) ''top'' = Some (Px (k * itemHeight s))"
    by (simp_all add: s1_def createRow_def Let_def set_style_def)
  have r: "snd (fragment_rows (x # xs) k s) = snd (fragment_rows xs (k + 1) s1)"
    by (simp add: split_def Let_def s1_def)
  show ?case
  proof (cases i)
    case 0
    have "heap (snd (fragment_rows xs (k + 1) s1)) (next_node s) = heap s1 (next_node s)"
      by (rule fragment_rows_heap_old) (simp add: n1)
    then show ?thesis using 0 unfolding r by (simp add: h1)
  next
    case (Suc j)
    then have "j < length xs" using Cons.prems by simp
    then have "style (heap (snd (fragment_rows xs (k + 1) s1)) (next_node s1 + j)) ''top'' =
        Some (Px ((k + 1 + int j) * itemHeight s1))"
      by (rule Cons.IH)
    then show ?thesis using Suc unfolding r by (simp add: n1 ih1 algebra_simps)
  qed
qed

lemma mark_idem: "mark (mark e) = mark e"
  by (simp add: mark_def setAttribute_def set_style_def)

lemma heap_mark_obsolete: "heap (mark_obsolete n s) = (heap s)(n := mark (heap s n))"
  by (simp add: mark_obsolete_def on_node_def mark_def)

lemma fold_mark_heap:
  "heap (fold mark_obsolete ns s) n = (if n \<in> set ns then mark (heap s n) else heap s n)"
proof (induction ns arbitrary: s)
  case Nil
  show ?case by simp
next
  case (Cons a ns)
  show ?case
    using Cons.IH [of "mark_obsolete a s"]
    by (simp add: heap_mark_obsolete mark_idem)
qed


lemma mark_simps:
  "childNodes (mark e) = childNodes e"
  "attributes (mark e) ''data-rm'' = Some ''1''"
  "style (mark e) ''display'' = Some (Lit ''none'')"
  "style (mark e) ''top'' = style e ''top''"
  by (simp_all add: mark_def setAttribute_def set_style_def)

lemma callback_heap:
  "heap (callback nd f items t s) =
     heap (appendChild nd (fst (fragment_rows items f (updateTotalRows t s)))
            (mark_children nd (snd (fragment_rows items f (updateTotalRows t s)))))"
  by (simp add: callback_def Let_def split_def renderChunk_def split: option.split)

lemma callback_next_node:
  "next_node (callback nd f items t s) = next_node s + length items"
proof -
  obtain H1 where s1: "updateTotalRows t s = s\<lparr>totalRows := t, heap := H1\<rparr>"
    using updateTotalRows_frame by blast
  define s2 where "s2 = snd (fragment_rows items f (updateTotalRows t s))"
  have n2: "next_node s2 = next_node s + length items"
    unfolding s2_def fragment_rows_next by (simp add: s1)
  obtain H3 where s3: "mark_children nd s2 = s2\<lparr>heap := H3\<rparr>"
    using mark_children_frame by blast
  obtain H4 where s4: "appendChild nd (fst (fragment_rows items f (updateTotalRows t s)))
      (s2\<lparr>heap := H3\<rparr>) = s2\<lparr>heap := H3\<rparr>\<lparr>heap := H4\<rparr>"
    using appendChild_frame by blast
  have "next_node (callback nd f items t s) =
      next_node (appendChild nd (fst (fragment_rows items f (updateTotalRows t s)))
        (mark_children nd s2))"
    by (simp add: callback_def Let_def split_def renderChunk_def s2_def split: option.split)
  then show ?thesis
    by (simp add: s3 s4 n2)
qed

lemma callback_constants:
  "itemHeight (callback nd f items t s) = itemHeight s"
  "scroller (callback nd f items t s) = scroller s"
  "container (callback nd f items t s) = container s"
  "completed (callback nd f items t s) = completed s"
proof -
  obtain H m where "callback nd f items t s =
     (case nextChunk s of
        None \<Rightarrow> s\<lparr>totalRows := t, heap := H, next_node := m, loading := False\<rparr>
      | Some (nd', from') \<Rightarrow>
          renderChunk nd' from' (s\<lparr>totalRows := t, heap := H, next_node := m, loading := False\<rparr>))"
    using callback_frame by blast
  then show "itemHeight (callback nd f items t s) = itemHeight s"
    "scroller (callback nd f items t s) = scroller s"
    "container (callback nd f items t s) = container s"
    "completed (callback nd f items t s) = completed s"
    by (simp_all add: renderChunk_def split: option.split)
qed

lemma callback_dom:
  assumes "dom_struct s"
  shows "childNodes (heap (callback (container s) f items t s) (container s)) =
           childNodes (heap s (container s)) @ [next_node s ..< next_node s + length items]"
    and "\<forall>n \<in> set (rows s). flagged (callback (container s) f items t s) n \<and>
           style (heap (callback (container s) f items t s) n) ''display'' = Some (Lit ''none'')"
    and "\<not> flagged (callback (container s) f items t s) (scroller s)"
    and "\<forall>i < length items.
           \<not> flagged (callback (container s) f items t s) (next_node s + i) \<longrightarrow>
           row_index (callback (container s) f items t s) (next_node s + i) = Some (f + int i)"
proof -
  define C where "C = container s"
  define Sc where "Sc = scroller s"
  define m where "m = next_node s"
  from assms obtain rs where ih: "itemHeight s \<noteq> 0" and ne: "Sc \<noteq> C"
    and Scm: "Sc < m" and Cm: "C < m" and nf: "\<not> flagged s Sc"
    and ch: "childNodes (heap s C) = Sc # rs" and Sc_rs: "Sc \<notin> set rs"
    and rs_m: "\<forall>n \<in> set rs. n < m"
    unfolding dom_struct_def C_def Sc_def m_def by blast
  define s1 where "s1 = updateTotalRows t s"
  have h1: "heap s1 = (heap s)(Sc := set_style ''height'' (Px (itemHeight s * t)) (heap s Sc))"
    and n1: "next_node s1 = m" and ih1: "itemHeight s1 = itemHeight s"
    by (simp_all add: s1_def updateTotalRows_def on_node_def Let_def Sc_def m_def)
  define s2 where "s2 = snd (fragment_rows items f s1)"
  define frag where "frag = fst (fragment_rows items f s1)"
  have frag: "frag = [m ..< m + length items]"
    unfolding frag_def fragment_rows_nodes n1 ..
  have h2_old: "heap s2 n = heap s1 n" if "n < m" for n
    unfolding s2_def using that by (intro fragment_rows_heap_old) (simp add: n1)
  have h2_new: "style (heap s2 (m + i)) ''top'' = Some (Px ((f + int i) * itemHeight s))"
    if "i < length items" for i
    using fragment_rows_heap_new [OF that, of f s1] by (simp add: s2_def n1 ih1)
  have ch2: "childNodes (heap s2 C) = Sc # rs"
    using ne Cm by (simp add: h2_old h1 ch)
  have s3: "mark_children C s2 = fold mark_obsolete rs s2"
    by (simp add: mark_children_def ch2)
  define s4 where "s4 = appendChild C frag (mark_children C s2)"
  have h3: "heap (mark_children C s2) n = (if n \<in> set rs then mark (heap s2 n) else heap s2 n)"
    for n
    unfolding s3 by (rule fold_mark_heap)
  have h4: "heap s4 = (heap (mark_children C s2))
      (C := (heap (mark_children C s2) C)\<lparr>childNodes := childNodes (heap (mark_children C s2) C) @ frag\<rparr>)"
    by (simp add: s4_def appendChild_def on_node_def)
  have hc: "heap (callback C f items t s) = heap s4"
    unfolding callback_heap s4_def frag_def s2_def s1_def ..
  have ch3: "childNodes (heap (mark_children C s2) C) = Sc # rs"
    by (simp add: h3 mark_simps ch2)
  show "childNodes (heap (callback (container s) f items t s) (container s)) =
           childNodes (heap s (container s)) @ [next_node s ..< next_node s + length items]"
    unfolding C_def [symmetric] m_def [symmetric] hc
    by (simp add: h4 ch3 ch frag)
  have fl: "flagged (callback C f items t s) n \<and>
      style (heap (callback C f items t s) n) ''display'' = Some (Lit ''none'')"
    if "n \<in> set rs" for n
    using that by (auto simp: flagged_def hc h4 h3 mark_simps)
  have "rows s = rs"
    using Sc_rs by (auto simp: rows_def C_def [symmetric] Sc_def [symmetric] ch filter_id_conv)
  then show "\<forall>n \<in> set (rows s). flagged (callback (container s) f items t s) n \<and>
           style (heap (callback (container s) f items t s) n) ''display'' = Some (Lit ''none'')"
    unfolding C_def [symmetric] using fl by simp
  have "attributes (heap s4 Sc) = attributes (heap s Sc)"
    using ne Sc_rs Scm by (simp add: h4 h3 h2_old h1 set_style_def)
  then show "\<not> flagged (callback (container s) f items t s) (scroller s)"
    unfolding C_def [symmetric] Sc_def [symmetric] using nf by (simp add: flagged_def hc)
  have "row_index (callback C f items t s) (m + i) = Some (f + int i)"
    if i: "i < length items" for i
  proof -
    have a: "m + i \<noteq> C" using Cm by simp
    have b: "m + i \<notin> set rs" using rs_m by auto
    have "style (heap s4 (m + i)) ''top'' = Some (Px ((f + int i) * itemHeight s))"
      using a b by (simp add: h4 h3 h2_new [OF i])
    then show ?thesis
      using ih by (simp add: row_index_def hc callback_constants)
  qed
  then show "\<forall>i < length items.
           \<not> flagged (callback (container s) f items t s) (next_node s + i) \<longrightarrow>
           row_index (callback (container s) f items t s) (next_node s + i) = Some (f + int i)"
    unfolding C_def [symmetric] m_def [symmetric] by simp
qed


lemma dom_struct_callback:
  assumes "dom_struct s"
  shows "dom_struct (callback (container s) f items t s)"
proof -
  from assms obtain rs where ih: "itemHeight s \<noteq> 0" and ne: "scroller s \<noteq> container s"
    and Scm: "scroller s < next_node s" and Cm: "container s < next_node s"
    and ch: "childNodes (heap s (container s)) = scroller s # rs"
    and Sc_rs: "scroller s \<notin> set rs" and rs_m: "\<forall>n \<in> set rs. n < next_node s"
    unfolding dom_struct_def by blast
  have ch': "childNodes (heap (callback (container s) f items t s) (container s)) =
      scroller s # (rs @ [next_node s ..< next_node s + length items])"
    using callback_dom(1) [OF assms, of f items t] by (simp add: ch)
  have "scroller s \<notin> set (rs @ [next_node s ..< next_node s + length items])"
    using Sc_rs Scm by auto
  moreover have "\<forall>n \<in> set (rs @ [next_node s ..< next_node s + length items]).
      n < next_node s + length items"
    using rs_m by auto
  ultimately show ?thesis
    unfolding dom_struct_def callback_constants callback_next_node
    using ih ne Scm Cm ch' callback_dom(3) [OF assms, of f items t] by auto
qed

lemma live_ok_callback:
  assumes "dom_struct s" and "completed s = Some (f, c)" and "int (length items) \<le> c"
  shows "live_ok (callback (container s) f items t s)"
proof -
  define s' where "s' = callback (container s) f items t s"
  define m where "m = next_node s"
  from assms(1) obtain rs where Scm: "scroller s < m"
    and ch: "childNodes (heap s (container s)) = scroller s # rs"
    and Sc_rs: "scroller s \<notin> set rs"
    unfolding dom_struct_def m_def by blast
  have rows: "rows s = rs"
    using Sc_rs by (auto simp: rows_def ch filter_id_conv)
  have ch': "childNodes (heap s' (container s)) = scroller s # (rs @ [m ..< m + length items])"
    using callback_dom(1) [OF assms(1), of f items t] by (simp add: ch s'_def m_def)
  have rows': "rows s' = rs @ [m ..< m + length items]"
    using Sc_rs Scm
    by (auto simp: rows_def s'_def callback_constants ch' [unfolded s'_def] filter_id_conv)
  have "filter (\<lambda>n. \<not> flagged s' n) rs = []"
    using callback_dom(2) [OF assms(1), of f items t] by (simp add: rows s'_def)
  then have live: "live_rows s' = filter (\<lambda>n. \<not> flagged s' n) [m ..< m + length items]"
    by (simp add: live_rows_def rows')
  define js where "js = map (\<lambda>n. f + int (n - m)) (filter (\<lambda>n. \<not> flagged s' n) [m ..< m + length items])"
  have idx: "row_index s' n = Some (f + int (n - m))"
    if "n \<in> set (filter (\<lambda>n. \<not> flagged s' n) [m ..< m + length items])" for n
  proof -
    from that have "m \<le> n" and "n - m < length items" and "\<not> flagged s' n" by auto
    then show ?thesis
      using callback_dom(4) [OF assms(1), of items f t]
      unfolding s'_def [symmetric] m_def [symmetric]
      by (metis le_add_diff_inverse)
  qed
  have li: "live_indices s' = map Some js"
    unfolding live_indices_def live js_def map_map using idx by (intro map_cong) simp_all
  have "inj_on (\<lambda>n. f + int (n - m)) (set (filter (\<lambda>n. \<not> flagged s' n) [m ..< m + length items]))"
    by (rule inj_onI) auto
  then have d: "distinct js"
    unfolding js_def by (simp add: distinct_map)
  have sub: "set js \<subseteq> {f ..< f + c}"
    unfolding js_def using assms(3) by auto
  have "completed s' = Some (f, c)"
    by (simp add: s'_def callback_constants assms(2))
  then show ?thesis
    unfolding live_ok_def s'_def [symmetric] using li d sub by auto
qed

lemma row_index_cong:
  "style (heap s' n) ''top'' = style (heap s n) ''top'' \<Longrightarrow> itemHeight s' = itemHeight s \<Longrightarrow>
   row_index s' n = row_index s n"
  by (simp add: row_index_def split: option.split cssval.split)

lemma filter_remove1_other: "\<not> P a \<Longrightarrow> filter P (remove1 a xs) = filter P xs"
  by (induction xs) auto

lemma removeChildren_dom:
  assumes "dom_struct s" and "\<forall>n \<in> set ns. flagged s n"
  shows "dom_struct (snd (removeChildren ns s))
       \<and> live_indices (snd (removeChildren ns s)) = live_indices s
       \<and> completed (snd (removeChildren ns s)) = completed s"
  using assms
proof (induction ns arbitrary: s)
  case Nil
  then show ?case by simp
next
  case (Cons a ns)
  show ?case
  proof (cases "a \<in> set (childNodes (heap s (container s)))")
    case False
    then show ?thesis using Cons.prems by simp
  next
    case True
    define s1 where "s1 = on_node (container s)
      (\<lambda>e. e\<lparr>childNodes := remove1 a (childNodes e)\<rparr>) s"
    from Cons.prems(1) obtain rs where ih: "itemHeight s \<noteq> 0"
      and ne: "scroller s \<noteq> container s"
      and Scm: "scroller s < next_node s" and Cm: "container s < next_node s"
      and nf: "\<not> flagged s (scroller s)"
      and ch: "childNodes (heap s (container s)) = scroller s # rs"
      and Sc_rs: "scroller s \<notin> set rs" and rs_m: "\<forall>n \<in> set rs. n < next_node s"
      unfolding dom_struct_def by blast
    have fa: "flagged s a" using Cons.prems(2) by simp
    then have a_ne: "a \<noteq> scroller s" using nf by auto
    have fl1: "flagged s1 = flagged s"
      by (rule ext) (simp add: flagged_def s1_def on_node_def)
    have ri1: "row_index s1 = row_index s"
      by (rule ext, rule row_index_cong) (simp_all add: s1_def on_node_def)
    have ch1: "childNodes (heap s1 (container s)) = scroller s # remove1 a rs"
      using a_ne by (simp add: s1_def on_node_def ch)
    have c1: "container s1 = container s" "scroller s1 = scroller s" "next_node s1 = next_node s"
      "itemHeight s1 = itemHeight s" "completed s1 = completed s"
      by (simp_all add: s1_def on_node_def)
    have ds1: "dom_struct s1"
      unfolding dom_struct_def fl1 ch1 c1
      using ih ne Scm Cm nf Sc_rs rs_m by (auto dest: notin_set_remove1)
    have "rows s1 = remove1 a rs" "rows s = rs"
      using Sc_rs by (auto simp: rows_def ch1 ch c1 filter_id_conv dest: notin_set_remove1)
    then have "live_rows s1 = live_rows s"
      using fa by (simp add: live_rows_def fl1 filter_remove1_other)
    then have li1: "live_indices s1 = live_indices s"
      by (simp add: live_indices_def ri1)
    have "\<forall>n \<in> set ns. flagged s1 n"
      using Cons.prems(2) by (simp add: fl1)
    from Cons.IH [OF ds1 this] show ?thesis
      using True by (simp add: s1_def [symmetric] li1 c1)
  qed
qed

lemma rmNodeInterval_dom:
  assumes "dom_struct s"
  shows "dom_struct (snd (rmNodeInterval now doc s))
       \<and> live_indices (snd (rmNodeInterval now doc s)) = live_indices s
       \<and> completed (snd (rmNodeInterval now doc s)) = completed s"
proof (cases "now - lastScrolled s > 100")
  case False
  then show ?thesis using assms by (simp add: rmNodeInterval_def)
next
  case True
  have "\<forall>n \<in> set (querySelectorAll_rm doc s). flagged s n"
    by (simp add: querySelectorAll_rm_def)
  from removeChildren_dom [OF assms this] show ?thesis
    using True by (simp add: rmNodeInterval_def)
qed

lemma updateTotalRows_dom:
  "dom_struct (updateTotalRows n s) = dom_struct s"
  "live_indices (updateTotalRows n s) = live_indices s"
  "completed (updateTotalRows n s) = completed s"
proof -
  have fl: "flagged (updateTotalRows n s) = flagged s"
    by (rule ext) (simp add: flagged_def updateTotalRows_def on_node_def set_style_def Let_def)
  have ri: "row_index (updateTotalRows n s) = row_index s"
    by (rule ext, rule row_index_cong)
      (simp_all add: updateTotalRows_def on_node_def set_style_def Let_def)
  have ch: "childNodes (heap (updateTotalRows n s) k) = childNodes (heap s k)" for k
    by (simp add: updateTotalRows_def on_node_def set_style_def Let_def)
  have c: "container (updateTotalRows n s) = container s"
    "scroller (updateTotalRows n s) = scroller s"
    "next_node (updateTotalRows n s) = next_node s"
    "itemHeight (updateTotalRows n s) = itemHeight s"
    by (simp_all add: updateTotalRows_def on_node_def Let_def)
  show "dom_struct (updateTotalRows n s) = dom_struct s"
    unfolding dom_struct_def fl ch c ..
  show "live_indices (updateTotalRows n s) = live_indices s"
    unfolding live_indices_def live_rows_def rows_def fl ri ch c ..
  show "completed (updateTotalRows n s) = completed s"
    by (simp add: updateTotalRows_def on_node_def Let_def)
qed


lemma dom_view_cong:
  assumes "heap s' = heap s" and "container s' = container s" and "scroller s' = scroller s"
    and "next_node s' = next_node s" and "itemHeight s' = itemHeight s"
  shows "dom_struct s' = dom_struct s" and "live_indices s' = live_indices s"
    and "rows s' = rows s" and "flagged s' = flagged s"
proof -
  show fl: "flagged s' = flagged s"
    by (rule ext) (simp add: flagged_def assms)
  have ri: "row_index s' = row_index s"
    by (rule ext, rule row_index_cong) (simp_all add: assms)
  show "dom_struct s' = dom_struct s"
    unfolding dom_struct_def fl assms ..
  show "rows s' = rows s"
    unfolding rows_def assms ..
  then show "live_indices s' = live_indices s"
    unfolding live_indices_def live_rows_def fl ri by simp
qed

lemma live_ok_cong:
  "live_indices s' = live_indices s \<Longrightarrow> completed s' = completed s \<Longrightarrow> live_ok s' = live_ok s"
  by (simp add: live_ok_def)

lemma list_inv_renderChunk:
  assumes "list_inv s"
  shows "list_inv (renderChunk (container s) f s)"
proof -
  have "dom_struct (renderChunk (container s) f s) = dom_struct s"
    by (rule dom_view_cong) (simp_all add: renderChunk_def)
  moreover have "live_ok (renderChunk (container s) f s) = live_ok s"
    by (rule live_ok_cong, rule dom_view_cong) (simp_all add: renderChunk_def)
  ultimately show ?thesis
    using assms ctl_inv_renderChunk [of s f] by (simp add: list_inv_def)
qed

lemma list_inv_onScroll:
  assumes "list_inv s"
  shows "list_inv (onScroll y now s)"
proof -
  have "dom_struct (onScroll y now s) = dom_struct s"
    by (rule dom_view_cong) (simp_all add: onScroll_def renderChunk_def Let_def)
  moreover have "live_ok (onScroll y now s) = live_ok s"
    by (rule live_ok_cong, rule dom_view_cong)
      (simp_all add: onScroll_def renderChunk_def Let_def)
  ultimately show ?thesis
    using assms ctl_inv_onScroll [of s y now] by (simp add: list_inv_def)
qed

lemma list_inv_updateTotalRows:
  assumes "list_inv s"
  shows "list_inv (updateTotalRows n s)"
proof -
  have "live_ok (updateTotalRows n s) = live_ok s"
    by (rule live_ok_cong) (rule updateTotalRows_dom)+
  then show ?thesis
    using assms ctl_inv_updateTotalRows [of s n]
    by (simp add: list_inv_def updateTotalRows_dom(1))
qed

lemma list_inv_rmNodeInterval:
  assumes "list_inv s"
  shows "list_inv (snd (rmNodeInterval now doc s))"
proof -
  have d: "dom_struct s" using assms by (simp add: list_inv_def)
  have "live_ok (snd (rmNodeInterval now doc s)) = live_ok s"
    using rmNodeInterval_dom [OF d, of now doc] by (intro live_ok_cong) simp_all
  then show ?thesis
    using assms rmNodeInterval_dom [OF d, of now doc] ctl_inv_rmNodeInterval [of s now doc]
    by (simp add: list_inv_def)
qed

lemma fetch_done_callback:
  assumes "ctl_inv s" and "k < length (inflight s)"
  obtains f where "inflight s = [(container s, f, cachedItemsLen s)]" and "k = 0"
    and "fetch_done k items t s =
       callback (container s) f items t
         (s\<lparr>inflight := [], completed := Some (f, cachedItemsLen s)\<rparr>)"
proof -
  from assms have k: "k = 0" and len: "length (inflight s) = 1"
    by (auto simp: ctl_inv_def)
  then obtain nd f c where inf: "inflight s = [(nd, f, c)]"
    by (cases "inflight s") auto
  with assms(1) have "nd = container s" and "c = cachedItemsLen s"
    by (auto simp: ctl_inv_def)
  with inf have i: "inflight s = [(container s, f, cachedItemsLen s)]" by simp
  have "fetch_done k items t s =
       callback (container s) f items t
         (s\<lparr>inflight := [], completed := Some (f, cachedItemsLen s)\<rparr>)"
    by (simp add: fetch_done_def k i)
  from that [OF i k this] show thesis .
qed

lemma list_inv_fetch_done:
  assumes "list_inv s" and "int (length items) \<le> cachedItemsLen s"
  shows "list_inv (fetch_done k items t s)"
proof (cases "k < length (inflight s)")
  case False
  then show ?thesis using assms(1) by (simp add: fetch_done_def)
next
  case True
  have c: "ctl_inv s" and d: "dom_struct s"
    using assms(1) by (simp_all add: list_inv_def)
  from c True obtain f where
    fd: "fetch_done k items t s =
       callback (container s) f items t
         (s\<lparr>inflight := [], completed := Some (f, cachedItemsLen s)\<rparr>)"
    by (rule fetch_done_callback)
  define s1 where "s1 = s\<lparr>inflight := [], completed := Some (f, cachedItemsLen s)\<rparr>"
  have d1: "dom_struct s1"
    using d dom_view_cong(1) [of s1 s] by (simp add: s1_def)
  have c1: "container s1 = container s" "completed s1 = Some (f, cachedItemsLen s)"
    by (simp_all add: s1_def)
  have "dom_struct (callback (container s1) f items t s1)"
    using d1 by (rule dom_struct_callback)
  moreover have "live_ok (callback (container s1) f items t s1)"
    using d1 c1(2) assms(2) by (rule live_ok_callback)
  ultimately show ?thesis
    using ctl_inv_fetch_done [OF c, of k items t]
    unfolding fd s1_def [symmetric] c1 by (simp add: list_inv_def)
qed

lemma list_inv_step:
  assumes "list_inv s" and "within_count (cachedItemsLen s) e"
  shows "list_inv (step s e)"
  using assms
  by (cases e)
    (simp_all add: list_inv_renderChunk list_inv_onScroll list_inv_fetch_done
      list_inv_rmNodeInterval list_inv_updateTotalRows)

lemma list_inv_run:
  assumes "list_inv s" and "\<forall>e \<in> set evs. within_count (cachedItemsLen s) e"
  shows "list_inv (run evs s)"
  using assms
proof (induction evs arbitrary: s)
  case Nil
  then show ?case by (simp add: run_Nil)
next
  case (Cons e evs)
  have "list_inv (step s e)"
    using Cons.prems by (intro list_inv_step) simp_all
  moreover have "\<forall>e' \<in> set evs. within_count (cachedItemsLen (step s e)) e'"
    using Cons.prems(2) step_constants [of s e] by simp
  ultimately show ?case
    using Cons.IH by (simp add: run_Cons)
qed

lemma list_inv_VirtualList:
  assumes "VirtualList (Some c) gen = Inr s0"
  shows "list_inv s0"
proof -
  have "dom_struct s0 \<and> live_ok s0"
    using assms
    by (rule VirtualList_Inr)
      (simp add: dom_struct_def live_ok_def live_indices_def live_rows_def rows_def
        renderChunk_def flagged_def createScroller_def set_style_def createElement_def)
  then show ?thesis
    using ctl_inv_VirtualList [OF assms] by (simp add: list_inv_def)
qed

text \<open>
  Claim C3. Take a list after its construction and any sequence of events in which
  every answer of the data source holds at most as many items as were asked for.
  The indices of the live rows are distinct and lie in the window of the request that
  was answered last (there is no live row before the first answer). When a request
  waits and its answer arrives, every row mounted before, that is every child of the
  container but the scroller, which is the first child, is flagged and hidden, and
  the new rows are appended after the old children in one piece.
\<close>

theorem C3_live_rows_in_last_window:
  assumes "VirtualList (Some c) gen = Inr s0"
    and "\<forall>e \<in> set evs. within_count (cachedItemsLen s0) e"
  shows "distinct (live_indices (run evs s0))
       \<and> (case completed (run evs s0) of
            None \<Rightarrow> live_indices (run evs s0) = []
          | Some (f, n) \<Rightarrow> set (live_indices (run evs s0)) \<subseteq> Some ` {f ..< f + n})
       \<and> (inflight (run evs s0) \<noteq> [] \<longrightarrow>
            (\<forall>n \<in> set (rows (run evs s0)).
                flagged (step (run evs s0) (FetchDone 0 items t)) n \<and>
                style (heap (step (run evs s0) (FetchDone 0 items t)) n) ''display'' =
                  Some (Lit ''none''))
          \<and> childNodes (heap (step (run evs s0) (FetchDone 0 items t)) (container (run evs s0))) =
              childNodes (heap (run evs s0) (container (run evs s0))) @
              [next_node (run evs s0) ..< next_node (run evs s0) + length items]
          \<and> hd (childNodes (heap (run evs s0) (container (run evs s0)))) = scroller (run evs s0)
          \<and> \<not> flagged (step (run evs s0) (FetchDone 0 items t)) (scroller (run evs s0)))"
proof -
  define s where "s = run evs s0"
  have inv: "list_inv s"
    unfolding s_def using assms by (intro list_inv_run list_inv_VirtualList)
  then have c: "ctl_inv s" and d: "dom_struct s" and l: "live_ok s"
    by (simp_all add: list_inv_def)
  from l obtain js where js: "live_indices s = map Some js" "distinct js"
    "case completed s of None \<Rightarrow> js = [] | Some (f, n) \<Rightarrow> set js \<subseteq> {f ..< f + n}"
    unfolding live_ok_def by blast
  have p1: "distinct (live_indices s)"
    using js(1,2) by (simp add: distinct_map)
  have p2: "case completed s of None \<Rightarrow> live_indices s = []
          | Some (f, n) \<Rightarrow> set (live_indices s) \<subseteq> Some ` {f ..< f + n}"
    using js(1,3) by (auto split: option.splits)
  have p3: "(\<forall>n \<in> set (rows s).
                flagged (step s (FetchDone 0 items t)) n \<and>
                style (heap (step s (FetchDone 0 items t)) n) ''display'' = Some (Lit ''none''))
          \<and> childNodes (heap (step s (FetchDone 0 items t)) (container s)) =
              childNodes (heap s (container s)) @ [next_node s ..< next_node s + length items]
          \<and> hd (childNodes (heap s (container s))) = scroller s
          \<and> \<not> flagged (step s (FetchDone 0 items t)) (scroller s)"
    if "inflight s \<noteq> []"
  proof -
    from that have "0 < length (inflight s)" by simp
    with c obtain f where
      fd: "fetch_done 0 items t s =
         callback (container s) f items t
           (s\<lparr>inflight := [], completed := Some (f, cachedItemsLen s)\<rparr>)"
      by (rule fetch_done_callback)
    define s1 where "s1 = s\<lparr>inflight := [], completed := Some (f, cachedItemsLen s)\<rparr>"
    have d1: "dom_struct s1"
      using d dom_view_cong(1) [of s1 s] by (simp add: s1_def)
    have r1: "rows s1 = rows s"
      by (rule dom_view_cong) (simp_all add: s1_def)
    have c1: "container s1 = container s" "scroller s1 = scroller s"
      "next_node s1 = next_node s" "heap s1 = heap s"
      by (simp_all add: s1_def)
    have h: "hd (childNodes (heap s (container s))) = scroller s"
      using d by (auto simp: dom_struct_def)
    show ?thesis
      using callback_dom(1,2,3) [OF d1, of f items t] h
      unfolding step.simps fd s1_def [symmetric] c1 r1 by simp
  qed
  show ?thesis
    using p1 p2 p3 unfolding s_def by blast
qed

lemma example_two_fetches_rows:
  "flagged example_two_fetches 2" "flagged example_two_fetches 3"
  "\<not> flagged example_two_fetches 4"
  "style (heap example_two_fetches 2) ''display'' = Some (Lit ''none'')"
  "style (heap example_two_fetches 3) ''display'' = Some (Lit ''none'')"
  "style (heap example_two_fetches 4) ''top'' = Some (Px 4800)"
  "scroller example_two_fetches = 0" "itemHeight example_two_fetches = 20"
  "completed example_two_fetches = Some (240, 30)"
  by (simp_all add: example_two_fetches_def example_initial_def heap_defs flagged_def
      setAttribute_def set_style_def classList_add_def createElement_def example_gen_def)

lemma example_two_fetches_live: "live_indices example_two_fetches = [Some 240]"
  using example_two_fetches_children
  by (simp add: live_indices_def live_rows_def rows_def row_index_def
      example_two_fetches_rows example_two_fetches_fields)


lemma example_one_fetch_pending:
  "inflight (run [FetchDone 0 [10, 20] 1000, Request 240] example_initial) = [(1, 240, 30)]"
  "rows (run [FetchDone 0 [10, 20] 1000, Request 240] example_initial) = [2, 3]"
  "container (run [FetchDone 0 [10, 20] 1000, Request 240] example_initial) = 1"
  "scroller (run [FetchDone 0 [10, 20] 1000, Request 240] example_initial) = 0"
  "next_node (run [FetchDone 0 [10, 20] 1000, Request 240] example_initial) = 4"
  "childNodes (heap (run [FetchDone 0 [10, 20] 1000, Request 240] example_initial) (Suc 0)) =
     [0, 2, 3]"
  by (simp_all add: rows_def example_initial_def heap_defs)

theorem C3_live_rows_in_last_window_witness:
  "VirtualList (Some example_config) example_gen = Inr example_initial
   \<and> within_count (cachedItemsLen example_initial) (FetchDone 0 [10, 20] 1000)
   \<and> within_count (cachedItemsLen example_initial) (Request 240)
   \<and> within_count (cachedItemsLen example_initial) (FetchDone 0 [30] 1000)
   \<and> completed example_two_fetches = Some (240, 30)
   \<and> live_indices example_two_fetches = [Some 240]
   \<and> distinct (live_indices example_two_fetches)
   \<and> set (live_indices example_two_fetches) \<subseteq> Some ` {240 ..< 240 + 30}
   \<and> inflight (run [FetchDone 0 [10, 20] 1000, Request 240] example_initial) = [(1, 240, 30)]
   \<and> rows (run [FetchDone 0 [10, 20] 1000, Request 240] example_initial) = [2, 3]
   \<and> flagged example_two_fetches 2 \<and> flagged example_two_fetches 3
   \<and> style (heap example_two_fetches 2) ''display'' = Some (Lit ''none'')
   \<and> style (heap example_two_fetches 3) ''display'' = Some (Lit ''none'')
   \<and> childNodes (heap example_two_fetches 1) = [0, 2, 3] @ [4 ..< 4 + 1]
   \<and> \<not> flagged example_two_fetches 0"
proof -
  have w: "\<forall>e \<in> set [FetchDone 0 [10, 20] 1000, Request 240, FetchDone 0 [30] 1000].
      within_count (cachedItemsLen example_initial) e"
    and w': "\<forall>e \<in> set [FetchDone 0 [10, 20] 1000, Request 240].
      within_count (cachedItemsLen example_initial) e"
    by (simp_all add: example_initial_def)
  have st: "step (run [FetchDone 0 [10, 20] 1000, Request 240] example_initial)
      (FetchDone 0 [30] 1000) = example_two_fetches"
    by (simp add: example_two_fetches_def run_def)
  have a: "distinct (live_indices example_two_fetches)
      \<and> set (live_indices example_two_fetches) \<subseteq> Some ` {240 ..< 240 + 30}"
    using C3_live_rows_in_last_window [OF example_constructed w]
    unfolding example_two_fetches_def [symmetric]
    by (simp add: example_two_fetches_rows)
  have b: "flagged example_two_fetches 2 \<and> flagged example_two_fetches 3
      \<and> style (heap example_two_fetches 2) ''display'' = Some (Lit ''none'')
      \<and> style (heap example_two_fetches 3) ''display'' = Some (Lit ''none'')
      \<and> childNodes (heap example_two_fetches 1) = [0, 2, 3] @ [4 ..< 4 + 1]
      \<and> \<not> flagged example_two_fetches 0"
    using C3_live_rows_in_last_window [OF example_constructed w', of "[30]" 1000]
    unfolding st by (simp add: example_one_fetch_pending)
  have c: "cachedItemsLen example_initial = 30"
    by (simp add: example_initial_def)
  show ?thesis
    using a b
    by (simp add: example_constructed c example_two_fetches_rows
        example_two_fetches_live example_one_fetch_pending)
qed

end
